theory Spec2Isabelle
  imports Main "HOL-Library.Sublist"
begin

section \<open>The virtual lab inventory: data model\<close>

text \<open>
  The inventory document \<^verbatim>\<open>inventory.json\<close> is a JSON object with the keys
  \<^verbatim>\<open>cur_id\<close> and \<^verbatim>\<open>inventory\<close>. Every entry of the inventory is a JSON object
  tagged by its \<^verbatim>\<open>type\<close> key. The well-formed entries are a closed sum: a reagent
  (name, quantity), a DNA strand (sequence), a restriction enzyme (name) and a mixture
  (contents). Identifiers are Python integers, hence unbounded.
\<close>

datatype item =
    Reagent (ID: int) string string
  | DNA (ID: int) string
  | RestrictionEnzyme (ID: int) string
  | Mixture (ID: int) "item list"

text \<open>The value stored under the key \<^verbatim>\<open>type\<close>.\<close>

fun item_type :: "item \<Rightarrow> string" where
  "item_type (Reagent i n q) = ''Reagent''"
| "item_type (DNA i s) = ''DNA''"
| "item_type (RestrictionEnzyme i n) = ''RestrictionEnzyme''"
| "item_type (Mixture i cs) = ''Mixture''"

text \<open>
  Exceptions of the Python run time that \<^verbatim>\<open>combine_items.execute\<close> can raise:
  the subscript of a key that an entry does not have, and \<^verbatim>\<open>re.finditer\<close> called with
  a pattern that is neither a string nor a compiled pattern.
\<close>

datatype error = KeyError | TypeError

text \<open>The subscripts \<^verbatim>\<open>entry["sequence"]\<close>, \<^verbatim>\<open>entry["name"]\<close>, \<^verbatim>\<open>entry["contents"]\<close>.\<close>

fun get_sequence :: "item \<Rightarrow> error + string" where
  "get_sequence (DNA i s) = Inr s"
| "get_sequence e = Inl KeyError"

fun get_name :: "item \<Rightarrow> error + string" where
  "get_name (Reagent i n q) = Inr n"
| "get_name (RestrictionEnzyme i n) = Inr n"
| "get_name e = Inl KeyError"

fun get_contents :: "item \<Rightarrow> error + item list" where
  "get_contents (Mixture i cs) = Inr cs"
| "get_contents e = Inl KeyError"

record inventory_result =
  cur_id :: int
  inventory :: "item list"

section \<open>Looking the two operands up (lines 125 to 138)\<close>

text \<open>
  The loop over the top-level entries keeps three variables: \<^verbatim>\<open>id1_entry\<close>,
  \<^verbatim>\<open>id2_entry\<close> and \<^verbatim>\<open>new_inventory_entries\<close>. An entry whose ID is \<^verbatim>\<open>ID1\<close> is bound
  to the first, otherwise one whose ID is \<^verbatim>\<open>ID2\<close> to the second, and every other entry
  is appended to the third.
\<close>

fun find_entries ::
  "int \<Rightarrow> int \<Rightarrow> item list \<Rightarrow> item option \<times> item option \<times> item list
     \<Rightarrow> item option \<times> item option \<times> item list" where
  "find_entries ID1 ID2 [] acc = acc"
| "find_entries ID1 ID2 (entry # rest) (id1_entry, id2_entry, new_inventory_entries) =
     (if ID entry = ID1 then
        find_entries ID1 ID2 rest (Some entry, id2_entry, new_inventory_entries)
      else if ID entry = ID2 then
        find_entries ID1 ID2 rest (id1_entry, Some entry, new_inventory_entries)
      else
        find_entries ID1 ID2 rest (id1_entry, id2_entry, new_inventory_entries @ [entry]))"

section \<open>Flattening an operand (lines 141 to 149)\<close>

text \<open>
  A mixture contributes its contents, any other entry contributes itself. The source
  writes the same four lines once for each operand.
\<close>

definition flatten :: "item \<Rightarrow> error + item list" where
  "flatten entry =
     (if item_type entry = ''Mixture'' then get_contents entry else Inr [entry])"

section \<open>Digestion (lines 166 to 177)\<close>

text \<open>
  \<^verbatim>\<open>itertools.combinations(contents, 2)\<close>: the pairs of positions \<open>i < j\<close> in
  lexicographic order.
\<close>

fun combinations2 :: "'a list \<Rightarrow> ('a \<times> 'a) list" where
  "combinations2 [] = []"
| "combinations2 (x # xs) = map (Pair x) xs @ combinations2 xs"

text \<open>
  \<^verbatim>\<open>re.finditer\<close> for a pattern without metacharacters: the start positions of the
  matches, scanning from the left and resuming after the end of each match. The
  argument \<open>pos\<close> is the index of the head of the remaining text. An empty pattern
  matches at every position, the end included.
\<close>

function finditer :: "'a list \<Rightarrow> nat \<Rightarrow> 'a list \<Rightarrow> nat list" where
  "finditer pat pos s =
     (if pat = [] then map (\<lambda>i. pos + i) [0..<length s + 1]
      else if length s < length pat then []
      else if take (length pat) s = pat then
        pos # finditer pat (pos + length pat) (drop (length pat) s)
      else finditer pat (pos + 1) (drop 1 s))"
  by pat_completeness auto
termination
proof (relation "measure (\<lambda>(pat, pos, s). length s)")
  show "wf (measure (\<lambda>(pat, pos, s). length s))" by simp
next
  fix pat :: "'a list" and pos :: nat and s :: "'a list"
  assume "pat \<noteq> []" and "\<not> length s < length pat"
  then have "0 < length pat" and "length pat \<le> length s" by simp_all
  then have "length s - length pat < length s" by arith
  then show "((pat, pos + length pat, drop (length pat) s), (pat, pos, s))
               \<in> measure (\<lambda>(pat, pos, s). length s)"
    by simp
next
  fix pat :: "'a list" and pos :: nat and s :: "'a list"
  assume "pat \<noteq> []" and "\<not> length s < length pat"
  then have "0 < length s" by (cases pat) auto
  then show "((pat, pos + 1, drop 1 s), (pat, pos, s)) \<in> measure (\<lambda>(pat, pos, s). length s)"
    by simp
qed

declare finditer.simps [simp del]

text \<open>The slice \<^verbatim>\<open>s[a:b]\<close> for indices that are not negative.\<close>

definition slice :: "'a list \<Rightarrow> nat \<Rightarrow> nat \<Rightarrow> 'a list" where
  "slice s a b = take (b - a) (drop a s)"

text \<open>The recognition sequence of an enzyme: \<^verbatim>\<open>None\<close> unless the name is EcoR1.\<close>

definition cut_site :: "string \<Rightarrow> string option" where
  "cut_site nm = (if nm = ''EcoR1'' then Some ''GAATTC'' else None)"

definition cut_positions :: "string \<Rightarrow> string \<Rightarrow> nat list" where
  "cut_positions site dna_seq =
     [0] @ map (\<lambda>m. m + 1) (finditer site 0 dna_seq) @ [length dna_seq]"

definition fragments :: "string \<Rightarrow> string \<Rightarrow> string list" where
  "fragments site dna_seq =
     (let cp = cut_positions site dna_seq
      in map (\<lambda>i. slice dna_seq (cp ! i) (cp ! (i + 1))) [0..<length cp - 1])"

text \<open>Lines 168 to 177 together; \<^verbatim>\<open>re.finditer(None, dna_seq)\<close> raises.\<close>

definition digest :: "string \<Rightarrow> string \<Rightarrow> error + string list" where
  "digest nm dna_seq =
     (case cut_site nm of
        None \<Rightarrow> Inl TypeError
      | Some site \<Rightarrow> Inr (fragments site dna_seq))"

section \<open>The reaction loop (lines 151 to 184)\<close>

text \<open>
  The variables of the loop. The field \<open>created\<close> is a log of the entries the call
  constructs (the dictionary displays of lines 179 and 198), in the order of their
  construction; no other field depends on it.
\<close>

record vars =
  keep_entries :: "item list"
  strike_entries :: "item list"
  cur :: int
  created :: "item list"

definition reacts :: "item \<Rightarrow> item \<Rightarrow> bool" where
  "reacts p0 p1 =
     (let types = [item_type p0, item_type p1]
      in ''RestrictionEnzyme'' \<in> set types \<and> ''DNA'' \<in> set types)"

definition frag_prods :: "int \<Rightarrow> string list \<Rightarrow> item list" where
  "frag_prods c frags = map (\<lambda>(i, frag). DNA (c + int i) frag) (enumerate 0 frags)"

definition pair_step :: "item \<times> item \<Rightarrow> vars \<Rightarrow> error + vars" where
  "pair_step entry_pair v =
     (let p0 = fst entry_pair; p1 = snd entry_pair;
          v1 = v\<lparr>keep_entries := keep_entries v @ [p0, p1]\<rparr>
      in if reacts p0 p1 then
           (let restriction_enzyme = (if item_type p0 = ''RestrictionEnzyme'' then p0 else p1);
                dna_strand = (if item_type p0 = ''RestrictionEnzyme'' then p1 else p0)
            in case get_sequence dna_strand of
                 Inl e \<Rightarrow> Inl e
               | Inr dna_seq \<Rightarrow>
                  (case get_name restriction_enzyme of
                     Inl e \<Rightarrow> Inl e
                   | Inr nm \<Rightarrow>
                      (case digest nm dna_seq of
                         Inl e \<Rightarrow> Inl e
                       | Inr frags \<Rightarrow>
                           Inr \<lparr>keep_entries =
                                  keep_entries v1 @ frag_prods (cur v) frags
                                    @ [restriction_enzyme],
                                strike_entries = strike_entries v @ [dna_strand],
                                cur = cur v + int (length frags),
                                created = created v @ frag_prods (cur v) frags\<rparr>)))
         else Inr v1)"

fun react :: "(item \<times> item) list \<Rightarrow> vars \<Rightarrow> error + vars" where
  "react [] v = Inr v"
| "react (entry_pair # rest) v =
     (case pair_step entry_pair v of
        Inl e \<Rightarrow> Inl e
      | Inr v' \<Rightarrow> react rest v')"

section \<open>Reconciling keep and strike (lines 186 to 195)\<close>

fun dedup :: "item list \<Rightarrow> item list \<times> int list \<Rightarrow> item list \<times> int list" where
  "dedup [] acc = acc"
| "dedup (entry # rest) (final_entries, strike_ids) =
     (if ID entry \<notin> set strike_ids then
        dedup rest (final_entries @ [entry], strike_ids @ [ID entry])
      else dedup rest (final_entries, strike_ids))"

definition final_entries_of :: "item list \<Rightarrow> item list \<Rightarrow> item list" where
  "final_entries_of keep strike = fst (dedup keep ([], map ID strike))"

section \<open>The whole call\<close>

text \<open>
  The result of a call: the message returned or the exception raised, the document
  handed to \<^verbatim>\<open>write_file\<close> if the call reaches line 205, and, for a call that
  returns, the log of the entries constructed. An exception leaves the function before
  line 205, so nothing is written then.
\<close>

record outcome =
  returned :: "error + string"
  written :: "inventory_result option"
  constructed :: "item list"

definition invalid_msg :: string where
  "invalid_msg =
     ''One of the IDs you gave was not valid. Check the inventory to see if it exists.''"

definition combined_msg :: string where
  "combined_msg = ''The two items have been combined''"

definition raise :: "error \<Rightarrow> outcome" where
  "raise e = \<lparr>returned = Inl e, written = None, constructed = []\<rparr>"

definition combine_items :: "int \<Rightarrow> int \<Rightarrow> inventory_result \<Rightarrow> outcome" where
  "combine_items ID1 ID2 inventory_result =
     (case find_entries ID1 ID2 (inventory inventory_result) (None, None, []) of
        (Some id1_entry, Some id2_entry, new_inventory_entries) \<Rightarrow>
          (case flatten id1_entry of
             Inl e \<Rightarrow> raise e
           | Inr c1 \<Rightarrow>
              (case flatten id2_entry of
                 Inl e \<Rightarrow> raise e
               | Inr c2 \<Rightarrow>
                  (case react (combinations2 (c1 @ c2))
                          \<lparr>keep_entries = [], strike_entries = [],
                           cur = cur_id inventory_result, created = []\<rparr> of
                     Inl e \<Rightarrow> raise e
                   | Inr v \<Rightarrow>
                      (let final_entries = final_entries_of (keep_entries v) (strike_entries v);
                           new_entry = Mixture (cur v) final_entries
                       in \<lparr>returned = Inr combined_msg,
                           written = Some \<lparr>cur_id = cur v + 1,
                                           inventory = new_inventory_entries @ [new_entry]\<rparr>,
                           constructed = created v @ [new_entry]\<rparr>))))
      | _ \<Rightarrow> \<lparr>returned = Inr invalid_msg, written = None, constructed = []\<rparr>)"

text \<open>The store after the call: the document written, or the old one.\<close>

definition store_after :: "int \<Rightarrow> int \<Rightarrow> inventory_result \<Rightarrow> inventory_result" where
  "store_after ID1 ID2 s = (case written (combine_items ID1 ID2 s) of None \<Rightarrow> s | Some d \<Rightarrow> d)"

section \<open>Example inventories\<close>

text \<open>An enzyme and the strand of the specification's digestion example.\<close>

definition lab_digest :: inventory_result where
  "lab_digest =
     \<lparr>cur_id = 3,
      inventory = [RestrictionEnzyme 1 ''EcoR1'', DNA 2 ''AGAATTCTAGAATTCG'']\<rparr>"

text \<open>Two strands and a reagent: no pair reacts.\<close>

definition lab_strands :: inventory_result where
  "lab_strands =
     \<lparr>cur_id = 3,
      inventory = [DNA 1 ''AG'', Reagent 0 ''water'' ''1 ml'', DNA 2 ''CT'']\<rparr>"

text \<open>An enzyme that has no recognition sequence, and a strand.\<close>

definition lab_unknown_enzyme :: inventory_result where
  "lab_unknown_enzyme =
     \<lparr>cur_id = 3, inventory = [RestrictionEnzyme 1 ''BamH1'', DNA 2 ''GGATCC'']\<rparr>"

section \<open>Specification-side notions\<close>

text \<open>
  The deduplication policy in the words of the specification: a set of seen IDs, seeded
  with the struck IDs; an entry is included when its ID is not yet seen, and its ID is
  then marked seen.
\<close>

fun dedup_spec :: "int set \<Rightarrow> item list \<Rightarrow> item list" where
  "dedup_spec seen [] = []"
| "dedup_spec seen (e # es) =
     (if ID e \<in> seen then dedup_spec seen es else e # dedup_spec (insert (ID e) seen) es)"

text \<open>An occurrence of the pattern in the text at index \<open>p\<close>.\<close>

definition occurs_at :: "'a list \<Rightarrow> 'a list \<Rightarrow> nat \<Rightarrow> bool" where
  "occurs_at pat s p = (p + length pat \<le> length s \<and> take (length pat) (drop p s) = pat)"

text \<open>
  The member of a pair that lines 159 to 164 bind to \<^verbatim>\<open>dna_strand\<close>: the second when
  the first is tagged RestrictionEnzyme, otherwise the first.
\<close>

definition strand_of :: "item \<times> item \<Rightarrow> item" where
  "strand_of entry_pair =
     (if item_type (fst entry_pair) = ''RestrictionEnzyme'' then snd entry_pair
      else fst entry_pair)"

section \<open>Properties of the operand lookup\<close>

lemma find_entries_new:
  "snd (snd (find_entries ID1 ID2 es (e1, e2, new))) =
     new @ filter (\<lambda>e. ID e \<noteq> ID1 \<and> ID e \<noteq> ID2) es"
  by (induction es arbitrary: e1 e2 new) auto

lemma find_entries_fst_None:
  "fst (find_entries ID1 ID2 es (e1, e2, new)) = None \<longleftrightarrow>
     e1 = None \<and> ID1 \<notin> ID ` set es"
  by (induction es arbitrary: e1 e2 new) auto

lemma find_entries_snd_None:
  "fst (snd (find_entries ID1 ID2 es (e1, e2, new))) = None \<longleftrightarrow>
     e2 = None \<and> (ID1 = ID2 \<or> ID2 \<notin> ID ` set es)"
  by (induction es arbitrary: e1 e2 new) auto

lemma length_filter_other_id:
  "distinct (map ID es) \<Longrightarrow> a \<in> ID ` set es \<Longrightarrow>
     length (filter (\<lambda>e. ID e \<noteq> a) es) + 1 = length es"
proof (induction es)
  case Nil
  then show ?case by simp
next
  case (Cons e es)
  show ?case
  proof (cases "ID e = a")
    case True
    from Cons.prems(1) have "ID e \<notin> ID ` set es" by simp
    with True have "\<forall>x \<in> set es. ID x \<noteq> a" by blast
    then have "filter (\<lambda>e. ID e \<noteq> a) es = es" by (simp add: filter_id_conv)
    with True show ?thesis by simp
  next
    case False
    with Cons show ?thesis by auto
  qed
qed

lemma length_filter_other_ids:
  assumes "distinct (map ID es)" and "a \<noteq> b" and "a \<in> ID ` set es" and "b \<in> ID ` set es"
  shows "length (filter (\<lambda>e. ID e \<noteq> a \<and> ID e \<noteq> b) es) + 2 = length es"
proof -
  let ?es = "filter (\<lambda>e. ID e \<noteq> a) es"
  have f: "filter (\<lambda>e. ID e \<noteq> a \<and> ID e \<noteq> b) es = filter (\<lambda>e. ID e \<noteq> b) ?es"
    by simp
  have d: "distinct (map ID ?es)"
    using assms(1) by (rule distinct_map_filter)
  have b: "b \<in> ID ` set ?es"
    using assms(2,4) by auto
  have "length (filter (\<lambda>e. ID e \<noteq> b) ?es) + 1 = length ?es"
    using d b by (rule length_filter_other_id)
  moreover have "length ?es + 1 = length es"
    using assms(1,3) by (rule length_filter_other_id)
  ultimately show ?thesis
    unfolding f by simp
qed

lemma combine_items_invalid:
  assumes "ID1 \<notin> ID ` set (inventory s) \<or> ID1 = ID2 \<or> ID2 \<notin> ID ` set (inventory s)"
  shows "combine_items ID1 ID2 s =
           \<lparr>returned = Inr invalid_msg, written = None, constructed = []\<rparr>"
proof -
  obtain e1 e2 new
    where f: "find_entries ID1 ID2 (inventory s) (None, None, []) = (e1, e2, new)"
    by (cases "find_entries ID1 ID2 (inventory s) (None, None, [])") auto
  have "e1 = None \<or> e2 = None"
    using assms find_entries_fst_None [of ID1 ID2 "inventory s" None None "[]"]
      find_entries_snd_None [of ID1 ID2 "inventory s" None None "[]"] f
    by auto
  then show ?thesis
    using f by (auto simp: combine_items_def split: option.splits)
qed

section \<open>Properties of the scan and of the slicing\<close>

lemma occurs_at_drop:
  assumes "pat \<noteq> []"
  shows "occurs_at pat (drop k s) q \<longleftrightarrow> occurs_at pat s (k + q)"
proof -
  have "0 < length pat" using assms by simp
  then have "q + length pat \<le> length s - k \<longleftrightarrow> k + q + length pat \<le> length s"
    by arith
  then show ?thesis
    by (simp add: occurs_at_def add.commute)
qed

lemma occurs_at_0:
  "occurs_at pat s 0 \<longleftrightarrow> length pat \<le> length s \<and> take (length pat) s = pat"
  by (simp add: occurs_at_def)

lemma occurs_at_nth:
  assumes "occurs_at pat s m" and "k < length pat"
  shows "s ! (m + k) = pat ! k"
proof -
  from assms(1) have b: "m + length pat \<le> length s"
    and t: "take (length pat) (drop m s) = pat"
    by (simp_all add: occurs_at_def)
  have "pat ! k = take (length pat) (drop m s) ! k" by (simp add: t)
  also have "\<dots> = drop m s ! k" using assms(2) by simp
  also have "\<dots> = s ! (m + k)" using b assms(2) by simp
  finally show ?thesis by simp
qed

lemma finditer_sound:
  "pat \<noteq> [] \<Longrightarrow> m \<in> set (finditer pat pos s) \<Longrightarrow> pos \<le> m \<and> occurs_at pat s (m - pos)"
proof (induction pat pos s rule: finditer.induct)
  case (1 pat pos s)
  show ?case
  proof (cases "length s < length pat")
    case True
    with "1.prems" show ?thesis by (simp add: finditer.simps [of pat pos s])
  next
    case short: False
    show ?thesis
    proof (cases "take (length pat) s = pat")
      case True
      with short "1.prems" have
        "m = pos \<or> m \<in> set (finditer pat (pos + length pat) (drop (length pat) s))"
        by (simp add: finditer.simps [of pat pos s])
      then show ?thesis
      proof
        assume "m = pos"
        with True short show ?thesis by (simp add: occurs_at_0)
      next
        assume "m \<in> set (finditer pat (pos + length pat) (drop (length pat) s))"
        with "1.IH"(1) "1.prems"(1) short True
        have "pos + length pat \<le> m"
          and "occurs_at pat (drop (length pat) s) (m - (pos + length pat))"
          by simp_all
        then have "pos \<le> m" and "occurs_at pat s (length pat + (m - (pos + length pat)))"
          using "1.prems"(1) by (simp_all add: occurs_at_drop)
        moreover have "length pat + (m - (pos + length pat)) = m - pos"
          using \<open>pos + length pat \<le> m\<close> by arith
        ultimately show ?thesis by simp
      qed
    next
      case False
      with short "1.prems" have "m \<in> set (finditer pat (pos + 1) (drop 1 s))"
        by (simp add: finditer.simps [of pat pos s])
      with "1.IH"(2) "1.prems"(1) short False
      have "pos + 1 \<le> m" and "occurs_at pat (drop 1 s) (m - (pos + 1))"
        by simp_all
      then have "pos \<le> m" and "occurs_at pat s (1 + (m - (pos + 1)))"
        using "1.prems"(1) by (simp_all add: occurs_at_drop)
      moreover have "1 + (m - (pos + 1)) = m - pos"
        using \<open>pos + 1 \<le> m\<close> by arith
      ultimately show ?thesis by simp
    qed
  qed
qed


lemma finditer_ge:
  "pat \<noteq> [] \<Longrightarrow> m \<in> set (finditer pat pos s) \<Longrightarrow> pos \<le> m"
  using finditer_sound by blast

lemma finditer_apart:
  "pat \<noteq> [] \<Longrightarrow> sorted_wrt (\<lambda>a b. a + length pat \<le> b) (finditer pat pos s)"
proof (induction pat pos s rule: finditer.induct)
  case (1 pat pos s)
  show ?case
  proof (cases "length s < length pat")
    case True
    with "1.prems" show ?thesis by (simp add: finditer.simps [of pat pos s])
  next
    case short: False
    show ?thesis
    proof (cases "take (length pat) s = pat")
      case True
      let ?rest = "finditer pat (pos + length pat) (drop (length pat) s)"
      have eq: "finditer pat pos s = pos # ?rest"
        using True short "1.prems" by (simp add: finditer.simps [of pat pos s])
      have "sorted_wrt (\<lambda>a b. a + length pat \<le> b) ?rest"
        using "1.IH"(1) "1.prems" short True by simp
      moreover have "\<forall>m \<in> set ?rest. pos + length pat \<le> m"
        using finditer_ge [OF "1.prems"] by blast
      ultimately show ?thesis
        unfolding eq by simp
    next
      case False
      have eq: "finditer pat pos s = finditer pat (pos + 1) (drop 1 s)"
        using False short "1.prems" by (simp add: finditer.simps [of pat pos s])
      show ?thesis
        unfolding eq using "1.IH"(2) "1.prems" short False by simp
    qed
  qed
qed

lemma finditer_complete:
  "pat \<noteq> [] \<Longrightarrow> occurs_at pat s p \<Longrightarrow>
     \<exists>m \<in> set (finditer pat pos s). m \<le> pos + p \<and> pos + p < m + length pat"
proof (induction pat pos s arbitrary: p rule: finditer.induct)
  case (1 pat pos s)
  from "1.prems"(2) have bound: "p + length pat \<le> length s"
    by (simp add: occurs_at_def)
  then have short: "\<not> length s < length pat" by simp
  show ?case
  proof (cases "take (length pat) s = pat")
    case True
    let ?rest = "finditer pat (pos + length pat) (drop (length pat) s)"
    have eq: "finditer pat pos s = pos # ?rest"
      using True short "1.prems"(1) by (simp add: finditer.simps [of pat pos s])
    show ?thesis
    proof (cases "p < length pat")
      case True
      then show ?thesis unfolding eq by simp
    next
      case False
      then have p: "p = length pat + (p - length pat)" by simp
      with "1.prems" have "occurs_at pat (drop (length pat) s) (p - length pat)"
        by (simp add: occurs_at_drop)
      with "1.IH"(1) "1.prems"(1) short True
      obtain m where "m \<in> set ?rest"
        and "m \<le> pos + length pat + (p - length pat)"
        and "pos + length pat + (p - length pat) < m + length pat"
        by blast
      with False show ?thesis unfolding eq by auto
    qed
  next
    case False
    have eq: "finditer pat pos s = finditer pat (pos + 1) (drop 1 s)"
      using False short "1.prems"(1) by (simp add: finditer.simps [of pat pos s])
    have "p \<noteq> 0"
    proof
      assume "p = 0"
      with "1.prems"(2) have "occurs_at pat s 0" by simp
      with False show False by (simp add: occurs_at_0)
    qed
    then have p: "p = 1 + (p - 1)" by simp
    with "1.prems" have "occurs_at pat (drop 1 s) (p - 1)"
      by (simp add: occurs_at_drop)
    with "1.IH"(2) "1.prems"(1) short False
    obtain m where "m \<in> set (finditer pat (pos + 1) (drop 1 s))"
      and "m \<le> pos + 1 + (p - 1)" and "pos + 1 + (p - 1) < m + length pat"
      by blast
    with \<open>p \<noteq> 0\<close> show ?thesis unfolding eq by auto
  qed
qed

text \<open>Two occurrences of the recognition sequence of EcoR1 never overlap.\<close>

lemma GAATTC_no_overlap:
  assumes "occurs_at ''GAATTC'' s m" and "occurs_at ''GAATTC'' s p"
    and "m \<le> p" and "p < m + 6"
  shows "p = m"
proof -
  define d where "d = p - m"
  with assms(3,4) have d: "d < 6" and p: "p = m + d" by simp_all
  have "s ! (m + d) = ''GAATTC'' ! d"
    using assms(1) d by (intro occurs_at_nth) simp_all
  moreover have "s ! (p + 0) = ''GAATTC'' ! 0"
    using assms(2) by (intro occurs_at_nth) simp_all
  ultimately have g: "''GAATTC'' ! d = CHR ''G''"
    using p by simp
  from d have "d = 0 \<or> d = 1 \<or> d = 2 \<or> d = 3 \<or> d = 4 \<or> d = 5" by arith
  with g have "d = 0" by auto
  with p show ?thesis by simp
qed

lemma finditer_GAATTC:
  "set (finditer ''GAATTC'' 0 s) = {p. occurs_at ''GAATTC'' s p}"
proof (rule set_eqI, rule iffI)
  fix p assume "p \<in> set (finditer ''GAATTC'' 0 s)"
  then show "p \<in> {p. occurs_at ''GAATTC'' s p}"
    using finditer_sound [of "''GAATTC''" p 0 s] by simp
next
  fix p assume "p \<in> {p. occurs_at ''GAATTC'' s p}"
  then have o: "occurs_at ''GAATTC'' s p" by simp
  then obtain m where m: "m \<in> set (finditer ''GAATTC'' 0 s)" and "m \<le> p" and "p < m + 6"
    using finditer_complete [of "''GAATTC''" s p 0] by auto
  moreover have "occurs_at ''GAATTC'' s m"
    using m finditer_sound [of "''GAATTC''" m 0 s] by simp
  ultimately have "p = m"
    using o by (intro GAATTC_no_overlap)
  with m show "p \<in> set (finditer ''GAATTC'' 0 s)" by simp
qed


lemma slice_append:
  assumes "a \<le> b" and "b \<le> c"
  shows "slice s a b @ slice s b c = slice s a c"
proof -
  have "drop b s = drop (b - a) (drop a s)" using assms(1) by simp
  moreover have "c - a = (b - a) + (c - b)" using assms by simp
  ultimately show ?thesis
    unfolding slice_def by (simp only: take_add)
qed

lemma slice_whole: "slice s 0 (length s) = s"
  by (simp add: slice_def)

lemma consecutive_eq_zip:
  "map (\<lambda>i. f (cp ! i) (cp ! (i + 1))) [0..<length cp - 1] = map (\<lambda>(a, b). f a b) (zip cp (tl cp))"
  by (rule nth_equalityI) (simp_all add: nth_tl)

lemma concat_slices:
  "sorted cp \<Longrightarrow> cp \<noteq> [] \<Longrightarrow>
     concat (map (\<lambda>(a, b). slice s a b) (zip cp (tl cp))) = slice s (hd cp) (last cp)"
proof (induction cp)
  case Nil
  then show ?case by simp
next
  case (Cons a cp)
  show ?case
  proof (cases cp)
    case Nil
    then show ?thesis by (simp add: slice_def)
  next
    case (Cons b cp')
    with Cons.prems have ab: "a \<le> b" and bl: "b \<le> last cp" and s: "sorted cp"
      by auto
    have "concat (map (\<lambda>(a, b). slice s a b) (zip (a # cp) (tl (a # cp))))
            = slice s a b @ concat (map (\<lambda>(a, b). slice s a b) (zip cp (tl cp)))"
      using Cons by simp
    also have "\<dots> = slice s a b @ slice s b (last cp)"
      using Cons.IH [OF s] Cons by simp
    also have "\<dots> = slice s a (last cp)"
      using ab bl by (rule slice_append)
    finally show ?thesis using Cons by simp
  qed
qed

lemma cut_positions_sorted:
  assumes "pat \<noteq> []"
  shows "sorted (cut_positions pat s)"
proof -
  let ?ms = "finditer pat 0 s"
  have "sorted_wrt (\<lambda>a b. a + length pat \<le> b) ?ms"
    using assms by (rule finditer_apart)
  then have "sorted_wrt (\<lambda>a b. a \<le> b) ?ms"
    by (rule sorted_wrt_mono_rel [rotated]) simp
  then have 1: "sorted (map (\<lambda>m. m + 1) ?ms)"
    by (simp add: sorted_wrt_map)
  have 2: "\<forall>m \<in> set ?ms. m + 1 \<le> length s"
  proof
    fix m assume "m \<in> set ?ms"
    then have "occurs_at pat s m"
      using finditer_sound [OF assms, of m 0 s] by simp
    then have "m + length pat \<le> length s" by (simp add: occurs_at_def)
    moreover have "1 \<le> length pat" using assms by (cases pat) simp_all
    ultimately show "m + 1 \<le> length s" by simp
  qed
  show ?thesis
    unfolding cut_positions_def using 1 2 by (simp add: sorted_append)
qed

lemma fragments_concat:
  assumes "pat \<noteq> []"
  shows "concat (fragments pat s) = s"
proof -
  let ?cp = "cut_positions pat s"
  have ne: "?cp \<noteq> []" and h: "hd ?cp = 0" and l: "last ?cp = length s"
    by (simp_all add: cut_positions_def)
  have "concat (fragments pat s) = concat (map (\<lambda>(a, b). slice s a b) (zip ?cp (tl ?cp)))"
    unfolding fragments_def Let_def by (simp only: consecutive_eq_zip)
  also have "\<dots> = slice s (hd ?cp) (last ?cp)"
    using cut_positions_sorted [OF assms] ne by (rule concat_slices)
  also have "\<dots> = s"
    unfolding h l by (rule slice_whole)
  finally show ?thesis .
qed

lemma fragments_length: "length (fragments pat s) = length (finditer pat 0 s) + 1"
  by (simp add: fragments_def Let_def cut_positions_def)

lemma fragments_no_match:
  assumes "finditer pat 0 s = []"
  shows "fragments pat s = [s]"
  by (simp add: fragments_def cut_positions_def assms slice_def)

lemma fragments_nth:
  assumes "i < length (fragments pat s)"
  shows "fragments pat s ! i
           = slice s (cut_positions pat s ! i) (cut_positions pat s ! (i + 1))"
  using assms by (simp add: fragments_def Let_def)

section \<open>Properties of the deduplication pass\<close>

lemma dedup_refines:
  "dedup keep (fin, seen) =
     (fin @ dedup_spec (set seen) keep, seen @ map ID (dedup_spec (set seen) keep))"
  by (induction keep arbitrary: fin seen) auto

lemma final_entries_of_spec:
  "final_entries_of keep strike = dedup_spec (ID ` set strike) keep"
  by (simp add: final_entries_of_def dedup_refines)

lemma dedup_spec_ids: "ID ` set (dedup_spec seen keep) = ID ` set keep - seen"
  by (induction keep arbitrary: seen) auto

lemma dedup_spec_distinct: "distinct (map ID (dedup_spec seen keep))"
proof (induction keep arbitrary: seen)
  case Nil
  show ?case by simp
next
  case (Cons e es)
  have "ID e \<notin> ID ` set (dedup_spec (insert (ID e) seen) es)"
    by (simp add: dedup_spec_ids)
  with Cons show ?case by simp
qed

lemma dedup_spec_subseq: "subseq (dedup_spec seen keep) keep"
  by (induction keep arbitrary: seen) auto

lemma dedup_spec_first:
  "e \<in> set (dedup_spec seen keep) \<Longrightarrow> find (\<lambda>x. ID x = ID e) keep = Some e"
proof (induction keep arbitrary: seen)
  case Nil
  then show ?case by simp
next
  case (Cons k ks)
  show ?case
  proof (cases "ID k \<in> seen")
    case True
    with Cons.prems have e: "e \<in> set (dedup_spec seen ks)" by simp
    then have "ID e \<in> ID ` set ks - seen" using dedup_spec_ids [of seen ks] by blast
    with True have "ID k \<noteq> ID e" by auto
    with Cons.IH [OF e] show ?thesis by simp
  next
    case False
    with Cons.prems have "e = k \<or> e \<in> set (dedup_spec (insert (ID k) seen) ks)" by simp
    then show ?thesis
    proof
      assume "e = k"
      then show ?thesis by simp
    next
      assume e: "e \<in> set (dedup_spec (insert (ID k) seen) ks)"
      then have "ID e \<in> ID ` set ks - insert (ID k) seen"
        using dedup_spec_ids [of "insert (ID k) seen" ks] by blast
      then have "ID k \<noteq> ID e" by auto
      with Cons.IH [OF e] show ?thesis by simp
    qed
  qed
qed

section \<open>Properties of the reaction loop\<close>

lemma pair_step_no_react:
  "\<not> reacts (fst p) (snd p) \<Longrightarrow>
     pair_step p v = Inr (v\<lparr>keep_entries := keep_entries v @ [fst p, snd p]\<rparr>)"
  by (simp add: pair_step_def Let_def)

lemma pair_step_react:
  assumes "reacts (fst p) (snd p)" and "pair_step p v = Inr v'"
  shows "\<exists>frags enz dna.
           v' = \<lparr>keep_entries = keep_entries v @ [fst p, snd p] @ frag_prods (cur v) frags @ [enz],
                 strike_entries = strike_entries v @ [dna],
                 cur = cur v + int (length frags),
                 created = created v @ frag_prods (cur v) frags\<rparr>"
proof -
  define enz where "enz = (if item_type (fst p) = ''RestrictionEnzyme'' then fst p else snd p)"
  define dna where "dna = (if item_type (fst p) = ''RestrictionEnzyme'' then snd p else fst p)"
  have step: "pair_step p v =
     (case get_sequence dna of
        Inl e \<Rightarrow> Inl e
      | Inr dna_seq \<Rightarrow>
         (case get_name enz of
            Inl e \<Rightarrow> Inl e
          | Inr nm \<Rightarrow>
             (case digest nm dna_seq of
                Inl e \<Rightarrow> Inl e
              | Inr frags \<Rightarrow>
                  Inr \<lparr>keep_entries =
                         keep_entries v @ [fst p, snd p] @ frag_prods (cur v) frags @ [enz],
                       strike_entries = strike_entries v @ [dna],
                       cur = cur v + int (length frags),
                       created = created v @ frag_prods (cur v) frags\<rparr>)))"
    using assms(1) unfolding pair_step_def Let_def enz_def dna_def by (simp split: sum.splits)
  from assms(2) obtain dna_seq where 1: "get_sequence dna = Inr dna_seq"
    unfolding step by (cases "get_sequence dna") simp_all
  from assms(2) obtain nm where 2: "get_name enz = Inr nm"
    unfolding step by (cases "get_name enz") (simp_all add: 1)
  from assms(2) obtain frags where 3: "digest nm dna_seq = Inr frags"
    unfolding step by (cases "digest nm dna_seq") (simp_all add: 1 2)
  from assms(2) have "v' = \<lparr>keep_entries =
                         keep_entries v @ [fst p, snd p] @ frag_prods (cur v) frags @ [enz],
                       strike_entries = strike_entries v @ [dna],
                       cur = cur v + int (length frags),
                       created = created v @ frag_prods (cur v) frags\<rparr>"
    unfolding step by (simp add: 1 2 3)
  then show ?thesis by blast
qed

lemma frag_prods_length: "length (frag_prods c frags) = length frags"
  by (simp add: frag_prods_def)

lemma frag_prods_zip:
  "frag_prods c frags = map (\<lambda>(i, frag). DNA (c + int i) frag) (zip [0..<length frags] frags)"
  by (simp add: frag_prods_def enumerate_eq_zip)

lemma frag_prods_ids: "map ID (frag_prods c frags) = map (\<lambda>i. c + int i) [0..<length frags]"
proof (rule nth_equalityI)
  show "length (map ID (frag_prods c frags)) = length (map (\<lambda>i. c + int i) [0..<length frags])"
    by (simp add: frag_prods_length)
next
  fix i assume "i < length (map ID (frag_prods c frags))"
  then have i: "i < length frags" by (simp add: frag_prods_length)
  then show "map ID (frag_prods c frags) ! i = map (\<lambda>i. c + int i) [0..<length frags] ! i"
    by (simp add: frag_prods_def nth_enumerate_eq)
qed

lemma frag_prods_types: "e \<in> set (frag_prods c frags) \<Longrightarrow> item_type e = ''DNA''"
  by (auto simp: frag_prods_def)

text \<open>The log of a run that started with the counter \<open>c0\<close> and an empty log.\<close>

lemma upt_ids_append:
  "map (\<lambda>i. c0 + int i) [0..<n] @ map (\<lambda>i. c0 + int n + int i) [0..<m]
     = map (\<lambda>i. c0 + int i) [0..<n + m]"
proof (induction m)
  case 0
  show ?case by simp
next
  case (Suc m)
  have "[0..<n + Suc m] = [0..<n + m] @ [n + m]" by simp
  then have "map (\<lambda>i. c0 + int i) [0..<n + Suc m]
               = map (\<lambda>i. c0 + int i) [0..<n + m] @ [c0 + int n + int m]"
    by (simp del: upt_Suc)
  also have "\<dots> = map (\<lambda>i. c0 + int i) [0..<n]
                      @ (map (\<lambda>i. c0 + int n + int i) [0..<m] @ [c0 + int n + int m])"
    using Suc by simp
  also have "map (\<lambda>i. c0 + int n + int i) [0..<m] @ [c0 + int n + int m]
               = map (\<lambda>i. c0 + int n + int i) [0..<Suc m]"
    by simp
  finally show ?case by simp
qed

lemma pair_step_log:
  assumes "pair_step p v = Inr v'"
    and "map ID (created v) = map (\<lambda>i. c0 + int i) [0..<length (created v)]"
    and "cur v = c0 + int (length (created v))"
  shows "map ID (created v') = map (\<lambda>i. c0 + int i) [0..<length (created v')]
       \<and> cur v' = c0 + int (length (created v'))"
proof (cases "reacts (fst p) (snd p)")
  case False
  from assms(1) have "v' = v\<lparr>keep_entries := keep_entries v @ [fst p, snd p]\<rparr>"
    by (simp add: pair_step_no_react [OF False])
  with assms(2,3) show ?thesis by simp
next
  case True
  from pair_step_react [OF True assms(1)] obtain frags where
    c: "created v' = created v @ frag_prods (cur v) frags"
    and n: "cur v' = cur v + int (length frags)"
    by auto
  have "map ID (created v') =
          map (\<lambda>i. c0 + int i) [0..<length (created v)]
            @ map (\<lambda>i. c0 + int (length (created v)) + int i) [0..<length frags]"
    using c assms(2,3) by (simp add: frag_prods_ids)
  also have "\<dots> = map (\<lambda>i. c0 + int i) [0..<length (created v) + length frags]"
    by (rule upt_ids_append)
  finally show ?thesis
    using c n assms(3) by (simp add: frag_prods_length)
qed

lemma react_Cons_Inr:
  assumes "react (p # ps) v = Inr v'"
  obtains v1 where "pair_step p v = Inr v1" and "react ps v1 = Inr v'"
  using assms by (cases "pair_step p v") simp_all

lemma react_log:
  assumes "react ps v = Inr v'"
    and "map ID (created v) = map (\<lambda>i. c0 + int i) [0..<length (created v)]"
    and "cur v = c0 + int (length (created v))"
  shows "map ID (created v') = map (\<lambda>i. c0 + int i) [0..<length (created v')]
       \<and> cur v' = c0 + int (length (created v'))"
  using assms
proof (induction ps arbitrary: v)
  case Nil
  then show ?case by simp
next
  case (Cons p ps)
  from Cons.prems(1) obtain v1 where s: "pair_step p v = Inr v1" and r: "react ps v1 = Inr v'"
    by (rule react_Cons_Inr)
  from pair_step_log [OF s Cons.prems(2,3)] Cons.IH [OF r] show ?case by blast
qed

lemma pair_step_types:
  assumes "pair_step p v = Inr v'" and "\<forall>e \<in> set (created v). item_type e = ''DNA''"
  shows "\<forall>e \<in> set (created v'). item_type e = ''DNA''"
proof (cases "reacts (fst p) (snd p)")
  case False
  from assms(1) have "v' = v\<lparr>keep_entries := keep_entries v @ [fst p, snd p]\<rparr>"
    by (simp add: pair_step_no_react [OF False])
  with assms(2) show ?thesis by simp
next
  case True
  from pair_step_react [OF True assms(1)] obtain frags
    where "created v' = created v @ frag_prods (cur v) frags"
    by auto
  with assms(2) show ?thesis by (auto dest: frag_prods_types)
qed

lemma react_types:
  assumes "react ps v = Inr v'" and "\<forall>e \<in> set (created v). item_type e = ''DNA''"
  shows "\<forall>e \<in> set (created v'). item_type e = ''DNA''"
  using assms
proof (induction ps arbitrary: v)
  case Nil
  then show ?case by simp
next
  case (Cons p ps)
  from Cons.prems(1) obtain v1 where s: "pair_step p v = Inr v1" and r: "react ps v1 = Inr v'"
    by (rule react_Cons_Inr)
  from Cons.IH [OF r pair_step_types [OF s Cons.prems(2)]] show ?case .
qed

lemma reacts_iff:
  "reacts p0 p1 \<longleftrightarrow>
     (item_type p0 = ''RestrictionEnzyme'' \<and> item_type p1 = ''DNA'')
     \<or> (item_type p0 = ''DNA'' \<and> item_type p1 = ''RestrictionEnzyme'')"
  by (cases p0; cases p1) (simp_all add: reacts_def)

lemma digest_EcoR1: "digest ''EcoR1'' sq = Inr (fragments ''GAATTC'' sq)"
  by (simp add: digest_def cut_site_def)

lemma pair_step_enzyme_first:
  "pair_step (RestrictionEnzyme i ''EcoR1'', DNA j sq) v =
     Inr \<lparr>keep_entries = keep_entries v @ [RestrictionEnzyme i ''EcoR1'', DNA j sq]
             @ frag_prods (cur v) (fragments ''GAATTC'' sq) @ [RestrictionEnzyme i ''EcoR1''],
          strike_entries = strike_entries v @ [DNA j sq],
          cur = cur v + int (length (fragments ''GAATTC'' sq)),
          created = created v @ frag_prods (cur v) (fragments ''GAATTC'' sq)\<rparr>"
  by (simp add: pair_step_def Let_def reacts_def digest_EcoR1)

lemma pair_step_strand_first:
  "pair_step (DNA j sq, RestrictionEnzyme i ''EcoR1'') v =
     Inr \<lparr>keep_entries = keep_entries v @ [DNA j sq, RestrictionEnzyme i ''EcoR1'']
             @ frag_prods (cur v) (fragments ''GAATTC'' sq) @ [RestrictionEnzyme i ''EcoR1''],
          strike_entries = strike_entries v @ [DNA j sq],
          cur = cur v + int (length (fragments ''GAATTC'' sq)),
          created = created v @ frag_prods (cur v) (fragments ''GAATTC'' sq)\<rparr>"
  by (simp add: pair_step_def Let_def reacts_def digest_EcoR1)

lemma pair_step_unknown_enzyme:
  assumes "nm \<noteq> ''EcoR1''"
  shows "pair_step (RestrictionEnzyme i nm, DNA j sq) v = Inl TypeError"
    and "pair_step (DNA j sq, RestrictionEnzyme i nm) v = Inl TypeError"
  using assms by (simp_all add: pair_step_def Let_def reacts_def digest_def cut_site_def)

lemma set_combinations2:
  "set (combinations2 xs) = {(xs ! a, xs ! b) | a b. a < b \<and> b < length xs}"
proof (induction xs)
  case Nil
  show ?case by simp
next
  case (Cons x xs)
  let ?R = "{((x # xs) ! a, (x # xs) ! b) | a b. a < b \<and> b < length (x # xs)}"
  have "?R = Pair x ` set xs \<union> {(xs ! a, xs ! b) | a b. a < b \<and> b < length xs}"
  proof (rule set_eqI, rule iffI)
    fix p assume "p \<in> ?R"
    then obtain a b where p: "p = ((x # xs) ! a, (x # xs) ! b)" and ab: "a < b" "b < Suc (length xs)"
      by auto
    from ab obtain b' where b: "b = Suc b'" by (cases b) auto
    show "p \<in> Pair x ` set xs \<union> {(xs ! a, xs ! b) | a b. a < b \<and> b < length xs}"
    proof (cases a)
      case 0
      with p b ab show ?thesis by auto
    next
      case (Suc a')
      with p b ab have "p = (xs ! a', xs ! b')" "a' < b'" "b' < length xs" by auto
      then show ?thesis by blast
    qed
  next
    fix p assume "p \<in> Pair x ` set xs \<union> {(xs ! a, xs ! b) | a b. a < b \<and> b < length xs}"
    then show "p \<in> ?R"
    proof
      assume "p \<in> Pair x ` set xs"
      then obtain k where "k < length xs" "p = (x, xs ! k)"
        by (auto simp: in_set_conv_nth)
      then have "p = ((x # xs) ! 0, (x # xs) ! Suc k)" "0 < Suc k" "Suc k < length (x # xs)"
        by auto
      then show ?thesis by blast
    next
      assume "p \<in> {(xs ! a, xs ! b) | a b. a < b \<and> b < length xs}"
      then obtain a b where "p = (xs ! a, xs ! b)" "a < b" "b < length xs" by auto
      then have "p = ((x # xs) ! Suc a, (x # xs) ! Suc b)" "Suc a < Suc b"
        "Suc b < length (x # xs)"
        by auto
      then show ?thesis by blast
    qed
  qed
  with Cons show ?case by simp
qed

lemma length_combinations2: "length (combinations2 xs) = length xs choose 2"
  by (induction xs) (simp_all add: numeral_2_eq_2)

lemma foldl_pair_step_Inl:
  "foldl (\<lambda>r p. case r of Inl e \<Rightarrow> Inl e | Inr w \<Rightarrow> pair_step p w) (Inl e) ps = Inl e"
  by (induction ps) simp_all

lemma react_foldl:
  "react ps v = foldl (\<lambda>r p. case r of Inl e \<Rightarrow> Inl e | Inr w \<Rightarrow> pair_step p w) (Inr v) ps"
proof (induction ps arbitrary: v)
  case Nil
  show ?case by simp
next
  case (Cons p ps)
  show ?case
  proof (cases "pair_step p v")
    case (Inl e)
    then show ?thesis by (simp add: foldl_pair_step_Inl)
  next
    case (Inr w)
    then show ?thesis by (simp add: Cons.IH)
  qed
qed

lemma pair_step_strike_keep:
  assumes "pair_step p v = Inr v'"
  shows "strike_entries v' =
           strike_entries v @ (if reacts (fst p) (snd p) then [strand_of p] else [])"
    and "\<exists>xs. keep_entries v' = keep_entries v @ [fst p, snd p] @ xs"
proof -
  show "strike_entries v' =
           strike_entries v @ (if reacts (fst p) (snd p) then [strand_of p] else [])"
  proof (cases "reacts (fst p) (snd p)")
    case False
    from assms have "v' = v\<lparr>keep_entries := keep_entries v @ [fst p, snd p]\<rparr>"
      by (simp add: pair_step_no_react [OF False])
    with False show ?thesis by simp
  next
    case True
    with assms show ?thesis
      by (auto simp: pair_step_def Let_def strand_of_def split: sum.splits)
  qed
  show "\<exists>xs. keep_entries v' = keep_entries v @ [fst p, snd p] @ xs"
  proof (cases "reacts (fst p) (snd p)")
    case False
    from assms have "v' = v\<lparr>keep_entries := keep_entries v @ [fst p, snd p]\<rparr>"
      by (simp add: pair_step_no_react [OF False])
    then show ?thesis by simp
  next
    case True
    from pair_step_react [OF True assms] show ?thesis by auto
  qed
qed

lemma react_strike:
  "react ps v = Inr v' \<Longrightarrow>
     strike_entries v' =
       strike_entries v @ map strand_of (filter (\<lambda>p. reacts (fst p) (snd p)) ps)"
proof (induction ps arbitrary: v)
  case Nil
  then show ?case by simp
next
  case (Cons p ps)
  from Cons.prems obtain v1 where s: "pair_step p v = Inr v1" and r: "react ps v1 = Inr v'"
    by (rule react_Cons_Inr)
  from Cons.IH [OF r] pair_step_strike_keep(1) [OF s] show ?case by simp
qed

lemma react_keep:
  "react ps v = Inr v' \<Longrightarrow>
     set (keep_entries v) \<union> fst ` set ps \<union> snd ` set ps \<subseteq> set (keep_entries v')"
proof (induction ps arbitrary: v)
  case Nil
  then show ?case by simp
next
  case (Cons p ps)
  from Cons.prems obtain v1 where s: "pair_step p v = Inr v1" and r: "react ps v1 = Inr v'"
    by (rule react_Cons_Inr)
  from pair_step_strike_keep(2) [OF s]
  have "set (keep_entries v) \<union> {fst p, snd p} \<subseteq> set (keep_entries v1)" by auto
  with Cons.IH [OF r] show ?case by auto
qed

section \<open>The shape of a call that returns the success message\<close>

lemma msgs_differ: "invalid_msg \<noteq> combined_msg"
  by (simp add: invalid_msg_def combined_msg_def)

lemma combine_items_success:
  assumes "returned (combine_items ID1 ID2 s) = Inr combined_msg"
  obtains e1 e2 new c1 c2 v where
    "find_entries ID1 ID2 (inventory s) (None, None, []) = (Some e1, Some e2, new)"
    "flatten e1 = Inr c1" "flatten e2 = Inr c2"
    "react (combinations2 (c1 @ c2))
       \<lparr>keep_entries = [], strike_entries = [], cur = cur_id s, created = []\<rparr> = Inr v"
    "combine_items ID1 ID2 s =
       \<lparr>returned = Inr combined_msg,
        written = Some \<lparr>cur_id = cur v + 1,
                        inventory = new @ [Mixture (cur v)
                          (final_entries_of (keep_entries v) (strike_entries v))]\<rparr>,
        constructed = created v
          @ [Mixture (cur v) (final_entries_of (keep_entries v) (strike_entries v))]\<rparr>"
proof -
  obtain o1 o2 new
    where f: "find_entries ID1 ID2 (inventory s) (None, None, []) = (o1, o2, new)"
    by (cases "find_entries ID1 ID2 (inventory s) (None, None, [])") auto
  have o1: "o1 \<noteq> None"
  proof
    assume "o1 = None"
    with f have "combine_items ID1 ID2 s =
                   \<lparr>returned = Inr invalid_msg, written = None, constructed = []\<rparr>"
      by (simp add: combine_items_def)
    with assms msgs_differ show False by simp
  qed
  then obtain e1 where e1: "o1 = Some e1" by auto
  have o2: "o2 \<noteq> None"
  proof
    assume "o2 = None"
    with f e1 have "combine_items ID1 ID2 s =
                      \<lparr>returned = Inr invalid_msg, written = None, constructed = []\<rparr>"
      by (simp add: combine_items_def)
    with assms msgs_differ show False by simp
  qed
  then obtain e2 where e2: "o2 = Some e2" by auto
  note f' = f [unfolded e1 e2]
  obtain c1 where c1: "flatten e1 = Inr c1"
    using assms f' by (cases "flatten e1") (simp_all add: combine_items_def raise_def)
  obtain c2 where c2: "flatten e2 = Inr c2"
    using assms f' c1 by (cases "flatten e2") (simp_all add: combine_items_def raise_def)
  obtain v where v: "react (combinations2 (c1 @ c2))
       \<lparr>keep_entries = [], strike_entries = [], cur = cur_id s, created = []\<rparr> = Inr v"
    using assms f' c1 c2
    by (cases "react (combinations2 (c1 @ c2))
       \<lparr>keep_entries = [], strike_entries = [], cur = cur_id s, created = []\<rparr>")
      (simp_all add: combine_items_def raise_def)
  have "combine_items ID1 ID2 s =
       \<lparr>returned = Inr combined_msg,
        written = Some \<lparr>cur_id = cur v + 1,
                        inventory = new @ [Mixture (cur v)
                          (final_entries_of (keep_entries v) (strike_entries v))]\<rparr>,
        constructed = created v
          @ [Mixture (cur v) (final_entries_of (keep_entries v) (strike_entries v))]\<rparr>"
    using f' c1 c2 v by (simp add: combine_items_def Let_def)
  with f' c1 c2 v show ?thesis by (rule that)
qed

section \<open>The example inventories, evaluated\<close>

lemma fragments_example:
  "fragments ''GAATTC'' ''AGAATTCTAGAATTCG'' = [''AG'', ''AATTCTAG'', ''AATTCG'']"
  by code_simp

lemma digest_run:
  "combine_items 1 2 lab_digest =
     \<lparr>returned = Inr combined_msg,
      written = Some \<lparr>cur_id = 7, inventory = [Mixture 6
        [RestrictionEnzyme 1 ''EcoR1'', DNA 3 ''AG'', DNA 4 ''AATTCTAG'', DNA 5 ''AATTCG'']]\<rparr>,
      constructed = [DNA 3 ''AG'', DNA 4 ''AATTCTAG'', DNA 5 ''AATTCG'', Mixture 6
        [RestrictionEnzyme 1 ''EcoR1'', DNA 3 ''AG'', DNA 4 ''AATTCTAG'', DNA 5 ''AATTCG'']]\<rparr>"
  by code_simp

lemma strands_run:
  "combine_items 1 2 lab_strands =
     \<lparr>returned = Inr combined_msg,
      written = Some \<lparr>cur_id = 4, inventory = [Reagent 0 ''water'' ''1 ml'',
                   Mixture 3 [DNA 1 ''AG'', DNA 2 ''CT'']]\<rparr>,
      constructed = [Mixture 3 [DNA 1 ''AG'', DNA 2 ''CT'']]\<rparr>"
  by code_simp

section \<open>Flattening\<close>

text \<open>
  Claim C9. Flattening a mixture returns its contents, the same list in the same order,
  and flattening any other entry returns the one-element list of that entry; neither
  raises. In particular a mixture whose contents are already flat is flattened to
  exactly its contents.
\<close>

theorem flatten_contract:
  "flatten e = Inr (case e of Mixture i cs \<Rightarrow> cs | _ \<Rightarrow> [e])"
  by (cases e) (simp_all add: flatten_def)

theorem flatten_contract_witness:
  "flatten (Mixture 7 [DNA 1 ''AG'', RestrictionEnzyme 2 ''EcoR1''])
     = Inr [DNA 1 ''AG'', RestrictionEnzyme 2 ''EcoR1'']
   \<and> flatten (DNA 1 ''AG'') = Inr [DNA 1 ''AG'']"
  using flatten_contract [of "Mixture 7 [DNA 1 ''AG'', RestrictionEnzyme 2 ''EcoR1'']"]
    flatten_contract [of "DNA 1 ''AG''"]
  by simp

section \<open>The failure path\<close>

text \<open>
  Claim C7. When one of the two requested IDs is not the ID of a top-level entry, the
  call returns the failure message, constructs no entry and never reaches
  \<^verbatim>\<open>write_file\<close>: the store after the call is the store before it, counter included.
\<close>

theorem combine_invalid_id_no_mutation:
  assumes "ID1 \<notin> ID ` set (inventory s) \<or> ID2 \<notin> ID ` set (inventory s)"
  shows "returned (combine_items ID1 ID2 s) = Inr invalid_msg
       \<and> written (combine_items ID1 ID2 s) = None
       \<and> constructed (combine_items ID1 ID2 s) = []
       \<and> store_after ID1 ID2 s = s"
proof -
  have "combine_items ID1 ID2 s =
          \<lparr>returned = Inr invalid_msg, written = None, constructed = []\<rparr>"
    using assms by (intro combine_items_invalid) blast
  then show ?thesis by (simp add: store_after_def)
qed

theorem combine_invalid_id_no_mutation_witness:
  "999 \<notin> ID ` set (inventory \<lparr>cur_id = 3, inventory = [DNA 1 ''AG'', DNA 2 ''CT'']\<rparr>)
   \<and> returned (combine_items 999 1 \<lparr>cur_id = 3, inventory = [DNA 1 ''AG'', DNA 2 ''CT'']\<rparr>)
       = Inr invalid_msg
   \<and> written (combine_items 999 1 \<lparr>cur_id = 3, inventory = [DNA 1 ''AG'', DNA 2 ''CT'']\<rparr>)
       = None
   \<and> store_after 999 1 \<lparr>cur_id = 3, inventory = [DNA 1 ''AG'', DNA 2 ''CT'']\<rparr>
       = \<lparr>cur_id = 3, inventory = [DNA 1 ''AG'', DNA 2 ''CT'']\<rparr>"
proof -
  have h: "999 \<notin> ID ` set (inventory \<lparr>cur_id = 3, inventory = [DNA 1 ''AG'', DNA 2 ''CT'']\<rparr>)"
    by simp
  then have "999 \<notin> ID ` set (inventory \<lparr>cur_id = 3, inventory = [DNA 1 ''AG'', DNA 2 ''CT'']\<rparr>)
           \<or> 1 \<notin> ID ` set (inventory \<lparr>cur_id = 3, inventory = [DNA 1 ''AG'', DNA 2 ''CT'']\<rparr>)"
    by (rule disjI1)
  from combine_invalid_id_no_mutation [OF this] h show ?thesis by simp
qed

text \<open>
  Claim C10. A call with the same ID for both operands returns the failure message and
  leaves the store as it was, whatever the inventory holds: the second branch of the
  lookup is an \<^verbatim>\<open>elif\<close>, so no entry is ever bound to the second operand.
\<close>

theorem combine_same_id_invalid:
  "returned (combine_items a a s) = Inr invalid_msg
   \<and> written (combine_items a a s) = None
   \<and> store_after a a s = s"
proof -
  have "combine_items a a s =
          \<lparr>returned = Inr invalid_msg, written = None, constructed = []\<rparr>"
    by (intro combine_items_invalid) blast
  then show ?thesis by (simp add: store_after_def)
qed

theorem combine_same_id_invalid_witness:
  "returned (combine_items 1 1 \<lparr>cur_id = 3, inventory = [DNA 1 ''AG'', DNA 2 ''CT'']\<rparr>)
     = Inr invalid_msg
   \<and> store_after 1 1 \<lparr>cur_id = 3, inventory = [DNA 1 ''AG'', DNA 2 ''CT'']\<rparr>
       = \<lparr>cur_id = 3, inventory = [DNA 1 ''AG'', DNA 2 ''CT'']\<rparr>"
  using combine_same_id_invalid [of 1 "\<lparr>cur_id = 3, inventory = [DNA 1 ''AG'', DNA 2 ''CT'']\<rparr>"]
  by simp

section \<open>Digestion by EcoR1\<close>

text \<open>
  Claim C5. For the enzyme name EcoR1 the digestion of any sequence succeeds with the
  fragments for the recognition sequence GAATTC. The scan returns exactly the indices at
  which the recognition sequence occurs, from left to right and at least six apart. The
  cut points are these indices plus one, between 0 and the length of the sequence; the
  list of cut points is sorted, there is one fragment more than there are occurrences,
  each fragment is the slice between two consecutive cut points, and the fragments
  concatenated are the sequence. A sequence without an occurrence yields itself as the
  only fragment, and the sequence AGAATTCTAGAATTCG yields AG, AATTCTAG and AATTCG.
\<close>

theorem digest_EcoR1_fragments:
  "digest ''EcoR1'' sq = Inr (fragments ''GAATTC'' sq)
   \<and> set (finditer ''GAATTC'' 0 sq) = {p. occurs_at ''GAATTC'' sq p}
   \<and> sorted_wrt (\<lambda>a b. a + 6 \<le> b) (finditer ''GAATTC'' 0 sq)
   \<and> cut_positions ''GAATTC'' sq
       = [0] @ map (\<lambda>m. m + 1) (finditer ''GAATTC'' 0 sq) @ [length sq]
   \<and> sorted (cut_positions ''GAATTC'' sq)
   \<and> length (fragments ''GAATTC'' sq) = length (finditer ''GAATTC'' 0 sq) + 1
   \<and> (\<forall>i < length (fragments ''GAATTC'' sq).
         fragments ''GAATTC'' sq ! i
           = slice sq (cut_positions ''GAATTC'' sq ! i) (cut_positions ''GAATTC'' sq ! (i + 1)))
   \<and> concat (fragments ''GAATTC'' sq) = sq
   \<and> ((\<forall>p. \<not> occurs_at ''GAATTC'' sq p) \<longrightarrow> fragments ''GAATTC'' sq = [sq])
   \<and> finditer ''GAATTC'' 0 ''AGAATTCTAGAATTCG'' = [1, 9]
   \<and> cut_positions ''GAATTC'' ''AGAATTCTAGAATTCG'' = [0, 2, 10, 16]
   \<and> fragments ''GAATTC'' ''AGAATTCTAGAATTCG'' = [''AG'', ''AATTCTAG'', ''AATTCG'']"
proof -
  have ne: "''GAATTC'' \<noteq> []" by simp
  have 1: "digest ''EcoR1'' sq = Inr (fragments ''GAATTC'' sq)"
    by (rule digest_EcoR1)
  have 2: "set (finditer ''GAATTC'' 0 sq) = {p. occurs_at ''GAATTC'' sq p}"
    by (rule finditer_GAATTC)
  have len: "length ''GAATTC'' = 6" by simp
  have 3: "sorted_wrt (\<lambda>a b. a + 6 \<le> b) (finditer ''GAATTC'' 0 sq)"
    using finditer_apart [OF ne, of 0 sq] by (simp only: len)
  have 4: "cut_positions ''GAATTC'' sq
       = [0] @ map (\<lambda>m. m + 1) (finditer ''GAATTC'' 0 sq) @ [length sq]"
    by (simp add: cut_positions_def)
  have 5: "sorted (cut_positions ''GAATTC'' sq)"
    using ne by (rule cut_positions_sorted)
  have 6: "length (fragments ''GAATTC'' sq) = length (finditer ''GAATTC'' 0 sq) + 1"
    by (rule fragments_length)
  have 7: "\<forall>i < length (fragments ''GAATTC'' sq).
         fragments ''GAATTC'' sq ! i
           = slice sq (cut_positions ''GAATTC'' sq ! i) (cut_positions ''GAATTC'' sq ! (i + 1))"
    using fragments_nth by blast
  have 8: "concat (fragments ''GAATTC'' sq) = sq"
    using ne by (rule fragments_concat)
  have 9: "(\<forall>p. \<not> occurs_at ''GAATTC'' sq p) \<longrightarrow> fragments ''GAATTC'' sq = [sq]"
  proof
    assume "\<forall>p. \<not> occurs_at ''GAATTC'' sq p"
    with 2 have "set (finditer ''GAATTC'' 0 sq) = {}" by simp
    then have "finditer ''GAATTC'' 0 sq = []" by simp
    then show "fragments ''GAATTC'' sq = [sq]" by (rule fragments_no_match)
  qed
  have 10: "finditer ''GAATTC'' 0 ''AGAATTCTAGAATTCG'' = [1, 9]"
    by code_simp
  have 11: "cut_positions ''GAATTC'' ''AGAATTCTAGAATTCG'' = [0, 2, 10, 16]"
    by (simp add: cut_positions_def 10)
  have 12: "fragments ''GAATTC'' ''AGAATTCTAGAATTCG'' = [''AG'', ''AATTCTAG'', ''AATTCG'']"
    by (rule fragments_example)
  from 1 2 3 4 5 6 7 8 9 10 11 12 show ?thesis by blast
qed

theorem digest_EcoR1_fragments_witness:
  "(\<forall>p. \<not> occurs_at ''GAATTC'' ''ACGT'' p)
   \<and> fragments ''GAATTC'' ''ACGT'' = [''ACGT'']
   \<and> digest ''EcoR1'' ''AGAATTCTAGAATTCG'' = Inr [''AG'', ''AATTCTAG'', ''AATTCG'']
   \<and> fragments ''GAATTC'' ''AGAATTCTAGAATTCG'' ! 1 = slice ''AGAATTCTAGAATTCG'' 2 10"
proof -
  have h: "\<forall>p. \<not> occurs_at ''GAATTC'' ''ACGT'' p"
    by (simp add: occurs_at_def)
  from digest_EcoR1_fragments [of "''ACGT''"] h
  have a: "fragments ''GAATTC'' ''ACGT'' = [''ACGT'']"
    by blast
  from digest_EcoR1_fragments [of "''AGAATTCTAGAATTCG''"]
  have b: "digest ''EcoR1'' ''AGAATTCTAGAATTCG'' = Inr [''AG'', ''AATTCTAG'', ''AATTCG'']"
    by simp
  have c: "1 < length (fragments ''GAATTC'' ''AGAATTCTAGAATTCG'')"
    by (simp add: fragments_example)
  from digest_EcoR1_fragments [of "''AGAATTCTAGAATTCG''"] c
  have "fragments ''GAATTC'' ''AGAATTCTAGAATTCG'' ! 1
          = slice ''AGAATTCTAGAATTCG'' (cut_positions ''GAATTC'' ''AGAATTCTAGAATTCG'' ! 1)
              (cut_positions ''GAATTC'' ''AGAATTCTAGAATTCG'' ! (1 + 1))"
    by blast
  moreover from digest_EcoR1_fragments [of "''AGAATTCTAGAATTCG''"]
  have "cut_positions ''GAATTC'' ''AGAATTCTAGAATTCG'' = [0, 2, 10, 16]"
    by blast
  ultimately have d: "fragments ''GAATTC'' ''AGAATTCTAGAATTCG'' ! 1
                        = slice ''AGAATTCTAGAATTCG'' 2 10"
    by simp
  from h a b d show ?thesis by blast
qed

section \<open>The reaction step\<close>

text \<open>
  Claim C8. The loop is the step below applied to the pairs in order, stopping at the
  first exception, and a call whose two operands are found runs it on the pairs of
  positions \<open>a < b\<close> of the content pool, the flattened first operand followed by the
  flattened second, each pair once; the outcome of the call is built from the variables
  the loop ends with. When the loop ends, both members of every such pair are among the
  keep candidates, the struck entries are the strands of the pairs that react, in order,
  and the ID of the strand of a pair that reacts does not occur in the final entries. A
  pair enters the digestion branch exactly when one member is tagged RestrictionEnzyme
  and the other DNA, in either order; any other pair only adds its two members to the
  keep candidates. When the enzyme is EcoR1, so that a cut happens, the step constructs
  one DNA entry for each fragment, with the IDs following the counter in fragment order,
  appends the two members, the fragments and then the enzyme, unchanged, to the keep
  candidates, appends the strand to the struck entries and advances the counter by the
  number of fragments.
\<close>

theorem pair_step_digestion:
  "react ps v =
     foldl (\<lambda>r p. case r of Inl e \<Rightarrow> Inl e | Inr w \<Rightarrow> pair_step p w) (Inr v) ps
   \<and> (find_entries ID1 ID2 (inventory s) (None, None, []) = (Some e1, Some e2, new)
      \<and> flatten e1 = Inr c1 \<and> flatten e2 = Inr c2 \<and> pool = c1 @ c2
      \<and> init = \<lparr>keep_entries = [], strike_entries = [], cur = cur_id s, created = []\<rparr>
      \<longrightarrow>
        set (combinations2 pool) = {(pool ! a, pool ! b) | a b. a < b \<and> b < length pool}
      \<and> length (combinations2 pool) = length pool choose 2
      \<and> combine_items ID1 ID2 s =
          (case react (combinations2 pool) init of
             Inl e \<Rightarrow> raise e
           | Inr w \<Rightarrow>
               \<lparr>returned = Inr combined_msg,
                written = Some \<lparr>cur_id = cur w + 1,
                  inventory = new @ [Mixture (cur w)
                    (final_entries_of (keep_entries w) (strike_entries w))]\<rparr>,
                constructed = created w @ [Mixture (cur w)
                    (final_entries_of (keep_entries w) (strike_entries w))]\<rparr>)
      \<and> (\<forall>w. react (combinations2 pool) init = Inr w \<longrightarrow>
            strike_entries w
              = map strand_of (filter (\<lambda>p. reacts (fst p) (snd p)) (combinations2 pool))
          \<and> (\<forall>a b. a < b \<and> b < length pool \<longrightarrow>
                pool ! a \<in> set (keep_entries w) \<and> pool ! b \<in> set (keep_entries w)
              \<and> (reacts (pool ! a) (pool ! b) \<longrightarrow>
                    strand_of (pool ! a, pool ! b) \<in> set (strike_entries w)
                  \<and> ID (strand_of (pool ! a, pool ! b))
                      \<notin> ID ` set (final_entries_of (keep_entries w) (strike_entries w))))))
   \<and> (reacts p0 p1 \<longleftrightarrow>
      (item_type p0 = ''RestrictionEnzyme'' \<and> item_type p1 = ''DNA'')
      \<or> (item_type p0 = ''DNA'' \<and> item_type p1 = ''RestrictionEnzyme''))
   \<and> (\<not> reacts p0 p1 \<longrightarrow>
        pair_step (p0, p1) v = Inr (v\<lparr>keep_entries := keep_entries v @ [p0, p1]\<rparr>))
   \<and> ((p0 = RestrictionEnzyme i ''EcoR1'' \<and> p1 = DNA j sq)
        \<or> (p0 = DNA j sq \<and> p1 = RestrictionEnzyme i ''EcoR1'') \<longrightarrow>
        reacts p0 p1
        \<and> pair_step (p0, p1) v =
            Inr \<lparr>keep_entries = keep_entries v @ [p0, p1]
                    @ map (\<lambda>(k, frag). DNA (cur v + int k) frag)
                        (zip [0..<length (fragments ''GAATTC'' sq)] (fragments ''GAATTC'' sq))
                    @ [RestrictionEnzyme i ''EcoR1''],
                 strike_entries = strike_entries v @ [DNA j sq],
                 cur = cur v + int (length (fragments ''GAATTC'' sq)),
                 created = created v
                    @ map (\<lambda>(k, frag). DNA (cur v + int k) frag)
                        (zip [0..<length (fragments ''GAATTC'' sq)] (fragments ''GAATTC'' sq))\<rparr>)"
proof -
  have 1: "reacts p0 p1 \<longleftrightarrow>
      (item_type p0 = ''RestrictionEnzyme'' \<and> item_type p1 = ''DNA'')
      \<or> (item_type p0 = ''DNA'' \<and> item_type p1 = ''RestrictionEnzyme'')"
    by (rule reacts_iff)
  have 2: "\<not> reacts p0 p1 \<longrightarrow>
        pair_step (p0, p1) v = Inr (v\<lparr>keep_entries := keep_entries v @ [p0, p1]\<rparr>)"
    using pair_step_no_react [of "(p0, p1)" v] by simp
  have 3: "(p0 = RestrictionEnzyme i ''EcoR1'' \<and> p1 = DNA j sq)
        \<or> (p0 = DNA j sq \<and> p1 = RestrictionEnzyme i ''EcoR1'') \<longrightarrow>
        reacts p0 p1
        \<and> pair_step (p0, p1) v =
            Inr \<lparr>keep_entries = keep_entries v @ [p0, p1]
                    @ map (\<lambda>(k, frag). DNA (cur v + int k) frag)
                        (zip [0..<length (fragments ''GAATTC'' sq)] (fragments ''GAATTC'' sq))
                    @ [RestrictionEnzyme i ''EcoR1''],
                 strike_entries = strike_entries v @ [DNA j sq],
                 cur = cur v + int (length (fragments ''GAATTC'' sq)),
                 created = created v
                    @ map (\<lambda>(k, frag). DNA (cur v + int k) frag)
                        (zip [0..<length (fragments ''GAATTC'' sq)] (fragments ''GAATTC'' sq))\<rparr>"
  proof
    assume "(p0 = RestrictionEnzyme i ''EcoR1'' \<and> p1 = DNA j sq)
        \<or> (p0 = DNA j sq \<and> p1 = RestrictionEnzyme i ''EcoR1'')"
    then show "reacts p0 p1
        \<and> pair_step (p0, p1) v =
            Inr \<lparr>keep_entries = keep_entries v @ [p0, p1]
                    @ map (\<lambda>(k, frag). DNA (cur v + int k) frag)
                        (zip [0..<length (fragments ''GAATTC'' sq)] (fragments ''GAATTC'' sq))
                    @ [RestrictionEnzyme i ''EcoR1''],
                 strike_entries = strike_entries v @ [DNA j sq],
                 cur = cur v + int (length (fragments ''GAATTC'' sq)),
                 created = created v
                    @ map (\<lambda>(k, frag). DNA (cur v + int k) frag)
                        (zip [0..<length (fragments ''GAATTC'' sq)] (fragments ''GAATTC'' sq))\<rparr>"
    proof
      assume "p0 = RestrictionEnzyme i ''EcoR1'' \<and> p1 = DNA j sq"
      then show ?thesis
        by (simp add: pair_step_enzyme_first reacts_iff frag_prods_zip)
    next
      assume "p0 = DNA j sq \<and> p1 = RestrictionEnzyme i ''EcoR1''"
      then show ?thesis
        by (simp add: pair_step_strand_first reacts_iff frag_prods_zip)
    qed
  qed
  have 4: "react ps v =
     foldl (\<lambda>r p. case r of Inl e \<Rightarrow> Inl e | Inr w \<Rightarrow> pair_step p w) (Inr v) ps"
    by (rule react_foldl)
  have 5: "(find_entries ID1 ID2 (inventory s) (None, None, []) = (Some e1, Some e2, new)
      \<and> flatten e1 = Inr c1 \<and> flatten e2 = Inr c2 \<and> pool = c1 @ c2
      \<and> init = \<lparr>keep_entries = [], strike_entries = [], cur = cur_id s, created = []\<rparr>
      \<longrightarrow>
        set (combinations2 pool) = {(pool ! a, pool ! b) | a b. a < b \<and> b < length pool}
      \<and> length (combinations2 pool) = length pool choose 2
      \<and> combine_items ID1 ID2 s =
          (case react (combinations2 pool) init of
             Inl e \<Rightarrow> raise e
           | Inr w \<Rightarrow>
               \<lparr>returned = Inr combined_msg,
                written = Some \<lparr>cur_id = cur w + 1,
                  inventory = new @ [Mixture (cur w)
                    (final_entries_of (keep_entries w) (strike_entries w))]\<rparr>,
                constructed = created w @ [Mixture (cur w)
                    (final_entries_of (keep_entries w) (strike_entries w))]\<rparr>)
      \<and> (\<forall>w. react (combinations2 pool) init = Inr w \<longrightarrow>
            strike_entries w
              = map strand_of (filter (\<lambda>p. reacts (fst p) (snd p)) (combinations2 pool))
          \<and> (\<forall>a b. a < b \<and> b < length pool \<longrightarrow>
                pool ! a \<in> set (keep_entries w) \<and> pool ! b \<in> set (keep_entries w)
              \<and> (reacts (pool ! a) (pool ! b) \<longrightarrow>
                    strand_of (pool ! a, pool ! b) \<in> set (strike_entries w)
                  \<and> ID (strand_of (pool ! a, pool ! b))
                      \<notin> ID ` set (final_entries_of (keep_entries w) (strike_entries w))))))"
  proof (intro impI, elim conjE)
    assume f: "find_entries ID1 ID2 (inventory s) (None, None, []) = (Some e1, Some e2, new)"
      and c1: "flatten e1 = Inr c1" and c2: "flatten e2 = Inr c2" and pool: "pool = c1 @ c2"
      and init: "init = \<lparr>keep_entries = [], strike_entries = [], cur = cur_id s, created = []\<rparr>"
    have a: "set (combinations2 pool) = {(pool ! a, pool ! b) | a b. a < b \<and> b < length pool}"
      by (rule set_combinations2)
    have b: "length (combinations2 pool) = length pool choose 2"
      by (rule length_combinations2)
    have c: "combine_items ID1 ID2 s =
          (case react (combinations2 pool) init of
             Inl e \<Rightarrow> raise e
           | Inr w \<Rightarrow>
               \<lparr>returned = Inr combined_msg,
                written = Some \<lparr>cur_id = cur w + 1,
                  inventory = new @ [Mixture (cur w)
                    (final_entries_of (keep_entries w) (strike_entries w))]\<rparr>,
                constructed = created w @ [Mixture (cur w)
                    (final_entries_of (keep_entries w) (strike_entries w))]\<rparr>)"
      unfolding pool init
      by (simp add: combine_items_def f c1 c2 Let_def split: sum.splits)
    have d: "\<forall>w. react (combinations2 pool) init = Inr w \<longrightarrow>
            strike_entries w
              = map strand_of (filter (\<lambda>p. reacts (fst p) (snd p)) (combinations2 pool))
          \<and> (\<forall>a b. a < b \<and> b < length pool \<longrightarrow>
                pool ! a \<in> set (keep_entries w) \<and> pool ! b \<in> set (keep_entries w)
              \<and> (reacts (pool ! a) (pool ! b) \<longrightarrow>
                    strand_of (pool ! a, pool ! b) \<in> set (strike_entries w)
                  \<and> ID (strand_of (pool ! a, pool ! b))
                      \<notin> ID ` set (final_entries_of (keep_entries w) (strike_entries w))))"
    proof (intro allI impI)
      fix w assume r: "react (combinations2 pool) init = Inr w"
      have st: "strike_entries w
              = map strand_of (filter (\<lambda>p. reacts (fst p) (snd p)) (combinations2 pool))"
        using react_strike [OF r] by (simp add: init)
      have kp: "fst ` set (combinations2 pool) \<union> snd ` set (combinations2 pool)
                  \<subseteq> set (keep_entries w)"
        using react_keep [OF r] by simp
      have "\<forall>a b. a < b \<and> b < length pool \<longrightarrow>
                pool ! a \<in> set (keep_entries w) \<and> pool ! b \<in> set (keep_entries w)
              \<and> (reacts (pool ! a) (pool ! b) \<longrightarrow>
                    strand_of (pool ! a, pool ! b) \<in> set (strike_entries w)
                  \<and> ID (strand_of (pool ! a, pool ! b))
                      \<notin> ID ` set (final_entries_of (keep_entries w) (strike_entries w)))"
      proof (intro allI impI)
        fix a b assume ab: "a < b \<and> b < length pool"
        then have mem: "(pool ! a, pool ! b) \<in> set (combinations2 pool)"
          unfolding a by blast
        then have k1: "pool ! a \<in> set (keep_entries w)" and k2: "pool ! b \<in> set (keep_entries w)"
          using kp by force+
        have s: "reacts (pool ! a) (pool ! b) \<longrightarrow>
                    strand_of (pool ! a, pool ! b) \<in> set (strike_entries w)
                  \<and> ID (strand_of (pool ! a, pool ! b))
                      \<notin> ID ` set (final_entries_of (keep_entries w) (strike_entries w))"
        proof
          assume "reacts (pool ! a) (pool ! b)"
          with mem have in_s: "strand_of (pool ! a, pool ! b) \<in> set (strike_entries w)"
            unfolding st by force
          have "ID ` set (final_entries_of (keep_entries w) (strike_entries w))
                  = ID ` set (keep_entries w) - ID ` set (strike_entries w)"
            unfolding final_entries_of_spec by (rule dedup_spec_ids)
          with in_s show "strand_of (pool ! a, pool ! b) \<in> set (strike_entries w)
                  \<and> ID (strand_of (pool ! a, pool ! b))
                      \<notin> ID ` set (final_entries_of (keep_entries w) (strike_entries w))"
            by blast
        qed
        from k1 k2 s show "pool ! a \<in> set (keep_entries w) \<and> pool ! b \<in> set (keep_entries w)
              \<and> (reacts (pool ! a) (pool ! b) \<longrightarrow>
                    strand_of (pool ! a, pool ! b) \<in> set (strike_entries w)
                  \<and> ID (strand_of (pool ! a, pool ! b))
                      \<notin> ID ` set (final_entries_of (keep_entries w) (strike_entries w)))"
          by blast
      qed
      with st show "strike_entries w
              = map strand_of (filter (\<lambda>p. reacts (fst p) (snd p)) (combinations2 pool))
          \<and> (\<forall>a b. a < b \<and> b < length pool \<longrightarrow>
                pool ! a \<in> set (keep_entries w) \<and> pool ! b \<in> set (keep_entries w)
              \<and> (reacts (pool ! a) (pool ! b) \<longrightarrow>
                    strand_of (pool ! a, pool ! b) \<in> set (strike_entries w)
                  \<and> ID (strand_of (pool ! a, pool ! b))
                      \<notin> ID ` set (final_entries_of (keep_entries w) (strike_entries w))))"
        by blast
    qed
    from a b c d show "set (combinations2 pool) = {(pool ! a, pool ! b) | a b. a < b \<and> b < length pool}
      \<and> length (combinations2 pool) = length pool choose 2
      \<and> combine_items ID1 ID2 s =
          (case react (combinations2 pool) init of
             Inl e \<Rightarrow> raise e
           | Inr w \<Rightarrow>
               \<lparr>returned = Inr combined_msg,
                written = Some \<lparr>cur_id = cur w + 1,
                  inventory = new @ [Mixture (cur w)
                    (final_entries_of (keep_entries w) (strike_entries w))]\<rparr>,
                constructed = created w @ [Mixture (cur w)
                    (final_entries_of (keep_entries w) (strike_entries w))]\<rparr>)
      \<and> (\<forall>w. react (combinations2 pool) init = Inr w \<longrightarrow>
            strike_entries w
              = map strand_of (filter (\<lambda>p. reacts (fst p) (snd p)) (combinations2 pool))
          \<and> (\<forall>a b. a < b \<and> b < length pool \<longrightarrow>
                pool ! a \<in> set (keep_entries w) \<and> pool ! b \<in> set (keep_entries w)
              \<and> (reacts (pool ! a) (pool ! b) \<longrightarrow>
                    strand_of (pool ! a, pool ! b) \<in> set (strike_entries w)
                  \<and> ID (strand_of (pool ! a, pool ! b))
                      \<notin> ID ` set (final_entries_of (keep_entries w) (strike_entries w)))))"
      by blast
  qed
  from 1 2 3 4 5 show ?thesis by blast
qed

theorem pair_step_digestion_witness:
  "find_entries 1 2 (inventory lab_digest) (None, None, [])
     = (Some (RestrictionEnzyme 1 ''EcoR1''), Some (DNA 2 ''AGAATTCTAGAATTCG''), [])
   \<and> flatten (RestrictionEnzyme 1 ''EcoR1'') = Inr [RestrictionEnzyme 1 ''EcoR1'']
   \<and> flatten (DNA 2 ''AGAATTCTAGAATTCG'') = Inr [DNA 2 ''AGAATTCTAGAATTCG'']
   \<and> react (combinations2 [RestrictionEnzyme 1 ''EcoR1'', DNA 2 ''AGAATTCTAGAATTCG''])
         \<lparr>keep_entries = [], strike_entries = [], cur = 3, created = []\<rparr>
       = Inr \<lparr>keep_entries =
                [RestrictionEnzyme 1 ''EcoR1'', DNA 2 ''AGAATTCTAGAATTCG'',
                 DNA 3 ''AG'', DNA 4 ''AATTCTAG'', DNA 5 ''AATTCG'',
                 RestrictionEnzyme 1 ''EcoR1''],
              strike_entries = [DNA 2 ''AGAATTCTAGAATTCG''],
              cur = 6,
              created = [DNA 3 ''AG'', DNA 4 ''AATTCTAG'', DNA 5 ''AATTCG'']\<rparr>
   \<and> reacts (RestrictionEnzyme 1 ''EcoR1'') (DNA 2 ''AGAATTCTAGAATTCG'')
   \<and> ID (DNA 2 ''AGAATTCTAGAATTCG'') \<notin> ID ` set (final_entries_of (keep_entries \<lparr>keep_entries =
                [RestrictionEnzyme 1 ''EcoR1'', DNA 2 ''AGAATTCTAGAATTCG'',
                 DNA 3 ''AG'', DNA 4 ''AATTCTAG'', DNA 5 ''AATTCG'',
                 RestrictionEnzyme 1 ''EcoR1''],
              strike_entries = [DNA 2 ''AGAATTCTAGAATTCG''],
              cur = 6,
              created = [DNA 3 ''AG'', DNA 4 ''AATTCTAG'', DNA 5 ''AATTCG'']\<rparr>) (strike_entries \<lparr>keep_entries =
                [RestrictionEnzyme 1 ''EcoR1'', DNA 2 ''AGAATTCTAGAATTCG'',
                 DNA 3 ''AG'', DNA 4 ''AATTCTAG'', DNA 5 ''AATTCG'',
                 RestrictionEnzyme 1 ''EcoR1''],
              strike_entries = [DNA 2 ''AGAATTCTAGAATTCG''],
              cur = 6,
              created = [DNA 3 ''AG'', DNA 4 ''AATTCTAG'', DNA 5 ''AATTCG'']\<rparr>))
   \<and> \<not> reacts (DNA 1 ''AG'') (DNA 2 ''CT'')
   \<and> pair_step (DNA 1 ''AG'', DNA 2 ''CT'')
         \<lparr>keep_entries = [], strike_entries = [], cur = 3, created = []\<rparr>
       = Inr \<lparr>keep_entries = [DNA 1 ''AG'', DNA 2 ''CT''], strike_entries = [],
              cur = 3, created = []\<rparr>"
proof -
  let ?E = "RestrictionEnzyme 1 ''EcoR1''"
  let ?D = "DNA 2 ''AGAATTCTAGAATTCG''"
  let ?init = "\<lparr>keep_entries = [], strike_entries = [], cur = 3, created = []\<rparr>"
  let ?w = "\<lparr>keep_entries =
                [RestrictionEnzyme 1 ''EcoR1'', DNA 2 ''AGAATTCTAGAATTCG'',
                 DNA 3 ''AG'', DNA 4 ''AATTCTAG'', DNA 5 ''AATTCG'',
                 RestrictionEnzyme 1 ''EcoR1''],
              strike_entries = [DNA 2 ''AGAATTCTAGAATTCG''],
              cur = 6,
              created = [DNA 3 ''AG'', DNA 4 ''AATTCTAG'', DNA 5 ''AATTCG'']\<rparr>"
  have f: "find_entries 1 2 (inventory lab_digest) (None, None, []) = (Some ?E, Some ?D, [])"
    by (simp add: lab_digest_def)
  have c1: "flatten ?E = Inr [?E]" and c2: "flatten ?D = Inr [?D]"
    by (simp_all add: flatten_def)
  have pool: "[?E, ?D] = [?E] @ [?D]" by simp
  have init: "?init = \<lparr>keep_entries = [], strike_entries = [], cur = cur_id lab_digest,
                          created = []\<rparr>"
    by (simp add: lab_digest_def)
  have n: "\<not> reacts (DNA 1 ''AG'') (DNA 2 ''CT'')"
    by (simp add: reacts_def)
  note T = pair_step_digestion
             [where ps = "[(?E, ?D)]" and v = ?init and ?ID1.0 = 1 and ?ID2.0 = 2
                and s = lab_digest and ?e1.0 = ?E and ?e2.0 = ?D and new = "[]"
                and ?c1.0 = "[?E]" and ?c2.0 = "[?D]" and pool = "[?E, ?D]" and init = ?init
                and ?p0.0 = ?E and ?p1.0 = ?D and i = 1 and j = 2
                and sq = "''AGAATTCTAGAATTCG''"]
  from T have ps: "reacts ?E ?D \<and> pair_step (?E, ?D) ?init = Inr ?w"
    by (simp add: fragments_example)
  from T have "react [(?E, ?D)] ?init
                 = foldl (\<lambda>r p. case r of Inl e \<Rightarrow> Inl e | Inr w \<Rightarrow> pair_step p w)
                     (Inr ?init) [(?E, ?D)]"
    by blast
  with ps have r: "react (combinations2 [?E, ?D]) ?init = Inr ?w"
    by simp
  from T f c1 c2 pool init
  have "\<forall>w. react (combinations2 [?E, ?D]) ?init = Inr w \<longrightarrow>
          (\<forall>a b. a < b \<and> b < length [?E, ?D] \<longrightarrow>
             (reacts ([?E, ?D] ! a) ([?E, ?D] ! b) \<longrightarrow>
                ID (strand_of ([?E, ?D] ! a, [?E, ?D] ! b))
                  \<notin> ID ` set (final_entries_of (keep_entries w) (strike_entries w))))"
    by blast
  with r have "\<forall>a b. a < b \<and> b < length [?E, ?D] \<longrightarrow>
             (reacts ([?E, ?D] ! a) ([?E, ?D] ! b) \<longrightarrow>
                ID (strand_of ([?E, ?D] ! a, [?E, ?D] ! b))
                  \<notin> ID ` set (final_entries_of (keep_entries ?w) (strike_entries ?w)))"
    by blast
  then have "(0::nat) < 1 \<and> 1 < length [?E, ?D] \<longrightarrow>
             (reacts ([?E, ?D] ! 0) ([?E, ?D] ! 1) \<longrightarrow>
                ID (strand_of ([?E, ?D] ! 0, [?E, ?D] ! 1))
                  \<notin> ID ` set (final_entries_of (keep_entries ?w) (strike_entries ?w)))"
    by blast
  with ps have x: "ID ?D \<notin> ID ` set (final_entries_of (keep_entries ?w) (strike_entries ?w))"
    by (simp add: strand_of_def)
  from pair_step_digestion
         [where ?p0.0 = "DNA 1 ''AG''" and ?p1.0 = "DNA 2 ''CT''" and v = ?init] n
  have b: "pair_step (DNA 1 ''AG'', DNA 2 ''CT'') ?init
       = Inr \<lparr>keep_entries = [DNA 1 ''AG'', DNA 2 ''CT''], strike_entries = [],
              cur = 3, created = []\<rparr>"
    by simp
  from f c1 c2 r ps x n b show ?thesis by blast
qed

section \<open>Deduplication\<close>

text \<open>
  Claim C6. For every list of keep candidates and every list of struck entries, the
  deduplication pass computes what the policy of the specification describes; in its
  result no ID occurs twice; the result is a subsequence of the keep candidates, and
  each of its members is the first keep candidate with that ID; no member has a struck
  ID, wherever in the keep candidates it was proposed; and the IDs of the result are
  exactly those of the keep candidates that are not struck. Consequently the contents of
  the mixture that a successful call builds and appends to the inventory have distinct
  IDs.
\<close>

theorem dedup_final_entries:
  "final_entries_of keep strike = dedup_spec (ID ` set strike) keep
   \<and> distinct (map ID (final_entries_of keep strike))
   \<and> subseq (final_entries_of keep strike) keep
   \<and> (\<forall>e \<in> set (final_entries_of keep strike).
         ID e \<notin> ID ` set strike \<and> find (\<lambda>x. ID x = ID e) keep = Some e)
   \<and> ID ` set (final_entries_of keep strike) = ID ` set keep - ID ` set strike
   \<and> (returned (combine_items ID1 ID2 s) = Inr combined_msg \<longrightarrow>
        (\<exists>c cs. last (constructed (combine_items ID1 ID2 s)) = Mixture c cs
                \<and> last (inventory (store_after ID1 ID2 s)) = Mixture c cs
                \<and> distinct (map ID cs)))"
proof -
  let ?F = "final_entries_of keep strike"
  have 1: "?F = dedup_spec (ID ` set strike) keep"
    by (rule final_entries_of_spec)
  have 2: "distinct (map ID ?F)"
    unfolding 1 by (rule dedup_spec_distinct)
  have 3: "subseq ?F keep"
    unfolding 1 by (rule dedup_spec_subseq)
  have 5: "ID ` set ?F = ID ` set keep - ID ` set strike"
    unfolding 1 by (rule dedup_spec_ids)
  have 4: "\<forall>e \<in> set ?F. ID e \<notin> ID ` set strike \<and> find (\<lambda>x. ID x = ID e) keep = Some e"
  proof
    fix e assume e: "e \<in> set ?F"
    then have "ID e \<in> ID ` set keep - ID ` set strike" using 5 by blast
    moreover have "find (\<lambda>x. ID x = ID e) keep = Some e"
      using e unfolding 1 by (rule dedup_spec_first)
    ultimately show "ID e \<notin> ID ` set strike \<and> find (\<lambda>x. ID x = ID e) keep = Some e"
      by blast
  qed
  have 6: "returned (combine_items ID1 ID2 s) = Inr combined_msg \<longrightarrow>
        (\<exists>c cs. last (constructed (combine_items ID1 ID2 s)) = Mixture c cs
                \<and> last (inventory (store_after ID1 ID2 s)) = Mixture c cs
                \<and> distinct (map ID cs))"
  proof
    assume "returned (combine_items ID1 ID2 s) = Inr combined_msg"
    then obtain e1 e2 new c1 c2 v where
      "react (combinations2 (c1 @ c2))
          \<lparr>keep_entries = [], strike_entries = [], cur = cur_id s, created = []\<rparr> = Inr v"
      and c: "combine_items ID1 ID2 s =
       \<lparr>returned = Inr combined_msg,
        written = Some \<lparr>cur_id = cur v + 1,
                        inventory = new @ [Mixture (cur v)
                          (final_entries_of (keep_entries v) (strike_entries v))]\<rparr>,
        constructed = created v
          @ [Mixture (cur v) (final_entries_of (keep_entries v) (strike_entries v))]\<rparr>"
      by (rule combine_items_success)
    have "distinct (map ID (final_entries_of (keep_entries v) (strike_entries v)))"
      unfolding final_entries_of_spec by (rule dedup_spec_distinct)
    then show "\<exists>c cs. last (constructed (combine_items ID1 ID2 s)) = Mixture c cs
                \<and> last (inventory (store_after ID1 ID2 s)) = Mixture c cs
                \<and> distinct (map ID cs)"
      by (simp add: c store_after_def)
  qed
  from 1 2 3 4 5 6 show ?thesis by blast
qed

theorem dedup_final_entries_witness:
  "final_entries_of [DNA 1 ''A'', DNA 2 ''C'', DNA 1 ''A'', DNA 3 ''G'', DNA 2 ''C''] [DNA 3 ''G'']
     = [DNA 1 ''A'', DNA 2 ''C'']
   \<and> distinct (map ID (final_entries_of
        [DNA 1 ''A'', DNA 2 ''C'', DNA 1 ''A'', DNA 3 ''G'', DNA 2 ''C''] [DNA 3 ''G'']))
   \<and> returned (combine_items 1 2 lab_digest) = Inr combined_msg
   \<and> (\<exists>c cs. last (inventory (store_after 1 2 lab_digest)) = Mixture c cs
             \<and> distinct (map ID cs))"
proof -
  have h: "returned (combine_items 1 2 lab_digest) = Inr combined_msg"
    by (simp add: digest_run)
  have e: "dedup_spec (ID ` set [DNA 3 ''G''])
             [DNA 1 ''A'', DNA 2 ''C'', DNA 1 ''A'', DNA 3 ''G'', DNA 2 ''C'']
           = [DNA 1 ''A'', DNA 2 ''C'']"
    by simp
  from dedup_final_entries
         [of "[DNA 1 ''A'', DNA 2 ''C'', DNA 1 ''A'', DNA 3 ''G'', DNA 2 ''C'']"
             "[DNA 3 ''G'']" 1 2 lab_digest] h e
  show ?thesis by auto
qed

section \<open>The frame of a successful call\<close>

text \<open>
  Claim C2. When the top-level entries have pairwise distinct IDs and the two requested
  IDs are distinct and both present, a call that returns the success message writes an
  inventory that consists of the old top-level entries other than the two operands,
  unchanged and in their old order, followed by the one new mixture. Exactly two entries
  are removed, so the number of top-level entries decreases by one.
\<close>

theorem combine_frame:
  assumes "distinct (map ID (inventory s))"
    and "ID1 \<noteq> ID2"
    and "ID1 \<in> ID ` set (inventory s)"
    and "ID2 \<in> ID ` set (inventory s)"
    and "returned (combine_items ID1 ID2 s) = Inr combined_msg"
  shows "written (combine_items ID1 ID2 s) = Some (store_after ID1 ID2 s)
       \<and> inventory (store_after ID1 ID2 s)
           = filter (\<lambda>e. ID e \<noteq> ID1 \<and> ID e \<noteq> ID2) (inventory s)
               @ [last (constructed (combine_items ID1 ID2 s))]
       \<and> item_type (last (constructed (combine_items ID1 ID2 s))) = ''Mixture''
       \<and> length (filter (\<lambda>e. ID e \<noteq> ID1 \<and> ID e \<noteq> ID2) (inventory s)) + 2
           = length (inventory s)
       \<and> length (inventory (store_after ID1 ID2 s)) + 1 = length (inventory s)"
proof -
  from assms(5) obtain e1 e2 new c1 c2 v where
    f: "find_entries ID1 ID2 (inventory s) (None, None, []) = (Some e1, Some e2, new)"
    and "flatten e1 = Inr c1" and "flatten e2 = Inr c2"
    and "react (combinations2 (c1 @ c2))
          \<lparr>keep_entries = [], strike_entries = [], cur = cur_id s, created = []\<rparr> = Inr v"
    and c: "combine_items ID1 ID2 s =
       \<lparr>returned = Inr combined_msg,
        written = Some \<lparr>cur_id = cur v + 1,
                        inventory = new @ [Mixture (cur v)
                          (final_entries_of (keep_entries v) (strike_entries v))]\<rparr>,
        constructed = created v
          @ [Mixture (cur v) (final_entries_of (keep_entries v) (strike_entries v))]\<rparr>"
    by (rule combine_items_success)
  have new: "new = filter (\<lambda>e. ID e \<noteq> ID1 \<and> ID e \<noteq> ID2) (inventory s)"
    using find_entries_new [of ID1 ID2 "inventory s" None None "[]"] f by simp
  have two: "length (filter (\<lambda>e. ID e \<noteq> ID1 \<and> ID e \<noteq> ID2) (inventory s)) + 2
               = length (inventory s)"
    using assms(1-4) by (rule length_filter_other_ids)
  show ?thesis
    using two by (simp add: c store_after_def new)
qed

theorem combine_frame_witness:
  "distinct (map ID (inventory lab_strands))
   \<and> (1::int) \<noteq> 2
   \<and> 1 \<in> ID ` set (inventory lab_strands)
   \<and> 2 \<in> ID ` set (inventory lab_strands)
   \<and> returned (combine_items 1 2 lab_strands) = Inr combined_msg
   \<and> inventory lab_strands = [DNA 1 ''AG'', Reagent 0 ''water'' ''1 ml'', DNA 2 ''CT'']
   \<and> inventory (store_after 1 2 lab_strands)
       = [Reagent 0 ''water'' ''1 ml'', Mixture 3 [DNA 1 ''AG'', DNA 2 ''CT'']]
   \<and> length (inventory (store_after 1 2 lab_strands)) + 1 = length (inventory lab_strands)"
proof -
  have i: "inventory lab_strands = [DNA 1 ''AG'', Reagent 0 ''water'' ''1 ml'', DNA 2 ''CT'']"
    by (simp add: lab_strands_def)
  have h1: "distinct (map ID (inventory lab_strands))" by (simp add: i)
  have h2: "(1::int) \<noteq> 2" by simp
  have h3: "1 \<in> ID ` set (inventory lab_strands)" by (simp add: i)
  have h4: "2 \<in> ID ` set (inventory lab_strands)" by (simp add: i)
  have h5: "returned (combine_items 1 2 lab_strands) = Inr combined_msg"
    by (simp add: strands_run)
  have "inventory (store_after 1 2 lab_strands)
       = [Reagent 0 ''water'' ''1 ml'', Mixture 3 [DNA 1 ''AG'', DNA 2 ''CT'']]"
    using combine_frame [OF h1 h2 h3 h4 h5] by (simp add: strands_run i)
  with combine_frame [OF h1 h2 h3 h4 h5] h1 h2 h3 h4 h5 i show ?thesis
    by simp
qed

section \<open>Identifiers\<close>

text \<open>
  Claim C3. A call that returns the success message writes a document whose counter is
  the counter before the call plus the number of entries the call constructed: the DNA
  fragments of all digestions, and one more for the wrapping mixture, which is
  constructed last.
\<close>

theorem combine_counter_advance:
  assumes "returned (combine_items ID1 ID2 s) = Inr combined_msg"
  shows "written (combine_items ID1 ID2 s) = Some (store_after ID1 ID2 s)
       \<and> cur_id (store_after ID1 ID2 s)
           = cur_id s + int (length (constructed (combine_items ID1 ID2 s)))
       \<and> (\<forall>e \<in> set (butlast (constructed (combine_items ID1 ID2 s))). item_type e = ''DNA'')
       \<and> item_type (last (constructed (combine_items ID1 ID2 s))) = ''Mixture''
       \<and> length (constructed (combine_items ID1 ID2 s))
           = length (butlast (constructed (combine_items ID1 ID2 s))) + 1"
proof -
  from assms obtain e1 e2 new c1 c2 v where
    r: "react (combinations2 (c1 @ c2))
          \<lparr>keep_entries = [], strike_entries = [], cur = cur_id s, created = []\<rparr> = Inr v"
    and c: "combine_items ID1 ID2 s =
       \<lparr>returned = Inr combined_msg,
        written = Some \<lparr>cur_id = cur v + 1,
                        inventory = new @ [Mixture (cur v)
                          (final_entries_of (keep_entries v) (strike_entries v))]\<rparr>,
        constructed = created v
          @ [Mixture (cur v) (final_entries_of (keep_entries v) (strike_entries v))]\<rparr>"
    by (rule combine_items_success)
  have "cur v = cur_id s + int (length (created v))"
    using react_log [OF r, of "cur_id s"] by simp
  moreover have "\<forall>e \<in> set (created v). item_type e = ''DNA''"
    using react_types [OF r] by simp
  ultimately show ?thesis
    by (simp add: c store_after_def)
qed

theorem combine_counter_advance_witness:
  "returned (combine_items 1 2 lab_digest) = Inr combined_msg
   \<and> cur_id lab_digest = 3
   \<and> length (constructed (combine_items 1 2 lab_digest)) = 4
   \<and> cur_id (store_after 1 2 lab_digest) = 7"
proof -
  have h: "returned (combine_items 1 2 lab_digest) = Inr combined_msg"
    by (simp add: digest_run)
  have c: "cur_id lab_digest = 3"
    by (simp add: lab_digest_def)
  from combine_counter_advance [OF h] h c show ?thesis
    by (simp add: digest_run)
qed

text \<open>
  Claim C4, as stated, fails: the first entry a call constructs receives the counter
  before the call as its ID, which is not strictly greater than that counter. In the
  digestion example the counter is 3 and the new IDs are 3, 4, 5 and 6.
\<close>

theorem created_ids_not_above_counter:
  "map ID (constructed (combine_items 1 2 lab_digest)) = [3, 4, 5, 6]
   \<and> \<not> cur_id lab_digest < hd (map ID (constructed (combine_items 1 2 lab_digest)))"
  by (simp add: digest_run) (simp add: lab_digest_def)

text \<open>
  Claim C4, amended. In a call that returns the success message the IDs of the entries
  constructed, in the order of construction, are the consecutive integers from the
  counter before the call: they are strictly increasing, the first is that counter, and
  each is at least that counter and below the counter written back.
\<close>

theorem created_ids_consecutive:
  assumes "returned (combine_items ID1 ID2 s) = Inr combined_msg"
  shows "map ID (constructed (combine_items ID1 ID2 s))
           = map (\<lambda>i. cur_id s + int i) [0..<length (constructed (combine_items ID1 ID2 s))]
       \<and> sorted_wrt (<) (map ID (constructed (combine_items ID1 ID2 s)))
       \<and> (\<forall>i \<in> set (map ID (constructed (combine_items ID1 ID2 s))).
             cur_id s \<le> i \<and> i < cur_id (store_after ID1 ID2 s))
       \<and> hd (map ID (constructed (combine_items ID1 ID2 s))) = cur_id s"
proof -
  from assms obtain e1 e2 new c1 c2 v where
    r: "react (combinations2 (c1 @ c2))
          \<lparr>keep_entries = [], strike_entries = [], cur = cur_id s, created = []\<rparr> = Inr v"
    and c: "combine_items ID1 ID2 s =
       \<lparr>returned = Inr combined_msg,
        written = Some \<lparr>cur_id = cur v + 1,
                        inventory = new @ [Mixture (cur v)
                          (final_entries_of (keep_entries v) (strike_entries v))]\<rparr>,
        constructed = created v
          @ [Mixture (cur v) (final_entries_of (keep_entries v) (strike_entries v))]\<rparr>"
    by (rule combine_items_success)
  let ?cs = "constructed (combine_items ID1 ID2 s)"
  have l: "map ID (created v) = map (\<lambda>i. cur_id s + int i) [0..<length (created v)]"
    and n: "cur v = cur_id s + int (length (created v))"
    using react_log [OF r, of "cur_id s"] by simp_all
  have len: "length ?cs = Suc (length (created v))"
    by (simp add: c)
  have ids: "map ID ?cs = map (\<lambda>i. cur_id s + int i) [0..<length ?cs]"
    unfolding len using l n by (simp add: c)
  have after: "cur_id (store_after ID1 ID2 s) = cur_id s + int (length ?cs)"
    using n by (simp add: c store_after_def)
  have "sorted_wrt (<) (map (\<lambda>i. cur_id s + int i) [0..<length ?cs])"
    by (simp add: sorted_wrt_map)
  then have srt: "sorted_wrt (<) (map ID ?cs)"
    using ids by simp
  have bnd: "\<forall>i \<in> set (map ID ?cs). cur_id s \<le> i \<and> i < cur_id (store_after ID1 ID2 s)"
  proof
    fix i assume "i \<in> set (map ID ?cs)"
    then have "i \<in> set (map (\<lambda>i. cur_id s + int i) [0..<length ?cs])"
      using ids by simp
    then obtain k where "k < length ?cs" and "i = cur_id s + int k" by auto
    then show "cur_id s \<le> i \<and> i < cur_id (store_after ID1 ID2 s)"
      using after by simp
  qed
  have "hd (map (\<lambda>i. cur_id s + int i) [0..<length ?cs]) = cur_id s"
    unfolding len by (simp add: upt_rec del: upt_Suc)
  then have "hd (map ID ?cs) = cur_id s"
    using ids by simp
  with ids srt bnd show ?thesis by blast
qed

theorem created_ids_consecutive_witness:
  "returned (combine_items 1 2 lab_digest) = Inr combined_msg
   \<and> map ID (constructed (combine_items 1 2 lab_digest)) = [3, 4, 5, 6]
   \<and> sorted_wrt (<) (map ID (constructed (combine_items 1 2 lab_digest)))
   \<and> hd (map ID (constructed (combine_items 1 2 lab_digest))) = cur_id lab_digest"
proof -
  have h: "returned (combine_items 1 2 lab_digest) = Inr combined_msg"
    by (simp add: digest_run)
  have m: "map ID (constructed (combine_items 1 2 lab_digest)) = [3, 4, 5, 6]"
    by (simp add: digest_run)
  from created_ids_consecutive [OF h] h m show ?thesis
    by blast
qed

section \<open>An enzyme without a recognition sequence\<close>

text \<open>
  Claim C1 does not hold of the code. For an enzyme whose name is not EcoR1 the variable
  \<^verbatim>\<open>cut_site\<close> stays \<^verbatim>\<open>None\<close>, and line 174 hands it to \<^verbatim>\<open>re.finditer\<close>, which
  raises \<^verbatim>\<open>TypeError\<close>: the call does not complete, and nothing is written.
\<close>

theorem unknown_enzyme_raises:
  "combine_items 1 2 lab_unknown_enzyme
     = \<lparr>returned = Inl TypeError, written = None, constructed = []\<rparr>"
  by code_simp

end
